theory Spec2Isabelle
  imports Complex_Main "HOL-Library.Sublist"
begin

section \<open>The streamer dashboard: data model\<close>

text \<open>
  The dashboard of \<^verbatim>\<open>src/dashboard.py\<close> keeps its records in a pandas DataFrame. A cell
  of the frame is a string, a number, the float \<^verbatim>\<open>nan\<close> that pandas puts where a document
  lacks a field, or Python's \<^verbatim>\<open>None\<close> (a field stored as null). The metrics are counts, so
  numbers are Python integers; the bounds of a range come from a slider and may be
  fractional. Texts are ASCII.
\<close>

datatype cell = Str string | Num int | NaN | PyNone

text \<open>
  A frame is its column index and its rows, each row holding one cell per column in the
  order of the index. Column names are distinct, as the keys of a document are.
\<close>

record dataframe =
  columns :: "string list"
  rows :: "cell list list"

datatype py_error = KeyError string | TypeError | ReError

text \<open>Exceptions are values: \<open>Inl\<close> is a raised exception, and the first one ends the call.\<close>

definition bind_err :: "py_error + 'a \<Rightarrow> ('a \<Rightarrow> py_error + 'b) \<Rightarrow> py_error + 'b" where
  "bind_err r f = (case r of Inl e \<Rightarrow> Inl e | Inr x \<Rightarrow> f x)"

subsection \<open>Columns and boolean indexing\<close>

fun get_loc :: "string \<Rightarrow> string list \<Rightarrow> nat option" where
  "get_loc c [] = None"
| "get_loc c (x # xs) = (if c = x then Some 0 else map_option Suc (get_loc c xs))"

text \<open>A row shorter than the index reads as missing there, as pandas pads it.\<close>

definition cell_at :: "nat \<Rightarrow> cell list \<Rightarrow> cell" where
  "cell_at i r = (if i < length r then r ! i else NaN)"

text \<open>\<^verbatim>\<open>df[col]\<close>: the cells of one column, or \<^verbatim>\<open>KeyError\<close> when the frame has no such column.\<close>

definition getitem_col :: "dataframe \<Rightarrow> string \<Rightarrow> py_error + cell list" where
  "getitem_col df col =
     (case get_loc col (columns df) of
        None \<Rightarrow> Inl (KeyError col)
      | Some i \<Rightarrow> Inr (map (cell_at i) (rows df)))"

text \<open>\<^verbatim>\<open>df[mask]\<close> with a boolean Series: a new frame with the rows whose flag is set.\<close>

definition getitem_mask :: "dataframe \<Rightarrow> bool list \<Rightarrow> dataframe" where
  "getitem_mask df msk = df\<lparr>rows := map fst (filter snd (zip (rows df) msk))\<rparr>"

definition copy :: "dataframe \<Rightarrow> dataframe" where
  "copy df = \<lparr>columns = columns df, rows = rows df\<rparr>"

subsection \<open>Text search\<close>

text \<open>
  \<^verbatim>\<open>astype(str)\<close> applies \<^verbatim>\<open>str\<close> to every cell of the column, the missing ones included:
  \<^verbatim>\<open>str(float('nan'))\<close> is \<^verbatim>\<open>'nan'\<close> and \<^verbatim>\<open>str(None)\<close> is \<^verbatim>\<open>'None'\<close>.
  This is the conversion of pandas 1 and 2, where \<^verbatim>\<open>str\<close> is the Python type and the
  result is an object column of Python strings.
\<close>

definition digit_char :: "nat \<Rightarrow> char" where
  "digit_char d = ''0123456789'' ! (d mod 10)"

fun str_nat :: "nat \<Rightarrow> string" where
  "str_nat n = (if n < 10 then [digit_char n] else str_nat (n div 10) @ [digit_char (n mod 10)])"

definition str_int :: "int \<Rightarrow> string" where
  "str_int i = (if i < 0 then CHR ''-'' # str_nat (nat (- i)) else str_nat (nat i))"

fun py_str :: "cell \<Rightarrow> string" where
  "py_str (Str s) = s"
| "py_str (Num n) = str_int n"
| "py_str NaN = ''nan''"
| "py_str PyNone = ''None''"

definition astype_str :: "cell list \<Rightarrow> cell list" where
  "astype_str col = map (\<lambda>c. Str (py_str c)) col"

text \<open>
  \<^verbatim>\<open>str.contains(pat, case=False, na=False)\<close> leaves \<^verbatim>\<open>regex\<close> at its default
  \<^verbatim>\<open>True\<close>: pandas compiles the term with \<^verbatim>\<open>re.compile(pat, re.IGNORECASE)\<close>, which
  raises on a malformed pattern, and then asks \<^verbatim>\<open>search\<close> for every cell that is a
  string; a cell that is missing gets the value of \<^verbatim>\<open>na\<close>. Python's regular-expression
  engine is not part of the repository, so it is a parameter: \<open>re_compile pat\<close> is the
  compiled pattern's \<^verbatim>\<open>search(s) is not None\<close>, or the error.
\<close>

type_synonym regex_engine = "string \<Rightarrow> py_error + (string \<Rightarrow> bool)"

definition str_contains :: "regex_engine \<Rightarrow> cell list \<Rightarrow> string \<Rightarrow> bool \<Rightarrow> py_error + bool list" where
  "str_contains re_compile col pat na =
     bind_err (re_compile pat) (\<lambda>search.
       Inr (map (\<lambda>c. case c of Str s \<Rightarrow> search s | _ \<Rightarrow> na) col))"

text \<open>
  The mask starts as Python's \<^verbatim>\<open>False\<close> (\<open>None\<close> below) and becomes a Series at the
  first search column the frame has: \<^verbatim>\<open>False | series\<close> is the series.
\<close>

definition mask_or :: "bool list option \<Rightarrow> bool list \<Rightarrow> bool list" where
  "mask_or msk s = (case msk of None \<Rightarrow> s | Some m \<Rightarrow> map2 (\<or>) m s)"

definition search_columns :: "string list" where
  "search_columns = [''username'', ''game_name'', ''language'', ''twitter'']"

fun search_loop ::
  "regex_engine \<Rightarrow> dataframe \<Rightarrow> string \<Rightarrow> string list \<Rightarrow> bool list option \<Rightarrow> py_error + bool list option" where
  "search_loop re_compile df term [] msk = Inr msk"
| "search_loop re_compile df term (col # cols) msk =
     (if col \<in> set (columns df) then
        bind_err (getitem_col df col) (\<lambda>series.
        bind_err (str_contains re_compile (astype_str series) term False) (\<lambda>hits.
          search_loop re_compile df term cols (Some (mask_or msk hits))))
      else search_loop re_compile df term cols msk)"

text \<open>
  \<^verbatim>\<open>filtered_df[mask]\<close>: with a Series it selects rows; with the scalar \<^verbatim>\<open>False\<close> pandas
  looks for a column of that name and raises \<^verbatim>\<open>KeyError\<close>.
\<close>

definition text_search :: "regex_engine \<Rightarrow> dataframe \<Rightarrow> string \<Rightarrow> py_error + dataframe" where
  "text_search re_compile df term =
     bind_err (search_loop re_compile df term search_columns None) (\<lambda>msk.
       case msk of
         None \<Rightarrow> Inl (KeyError ''False'')
       | Some m \<Rightarrow> Inr (getitem_mask df m))"

subsection \<open>Equality and range predicates\<close>

text \<open>
  \<^verbatim>\<open>series == value\<close> compares cell by cell; a missing cell is equal to nothing, and
  neither is a missing value.
\<close>

fun cell_eq :: "cell \<Rightarrow> cell \<Rightarrow> bool" where
  "cell_eq (Str a) (Str b) = (a = b)"
| "cell_eq (Num a) (Num b) = (a = b)"
| "cell_eq _ _ = False"

definition eq_filter :: "dataframe \<Rightarrow> string \<Rightarrow> cell \<Rightarrow> py_error + dataframe" where
  "eq_filter df col v =
     bind_err (getitem_col df col) (\<lambda>series.
       Inr (getitem_mask df (map (\<lambda>c. cell_eq c v) series)))"

text \<open>
  \<^verbatim>\<open>series >= bound\<close> and \<^verbatim>\<open>series <= bound\<close>: a number is compared, a missing cell is
  \<^verbatim>\<open>False\<close>, and a string against a number raises \<^verbatim>\<open>TypeError\<close>.
\<close>

fun compare_cell :: "(real \<Rightarrow> real \<Rightarrow> bool) \<Rightarrow> real \<Rightarrow> cell \<Rightarrow> py_error + bool" where
  "compare_cell ord b (Num n) = Inr (ord (of_int n) b)"
| "compare_cell ord b (Str s) = Inl TypeError"
| "compare_cell ord b NaN = Inr False"
| "compare_cell ord b PyNone = Inr False"

fun compare_series :: "(real \<Rightarrow> real \<Rightarrow> bool) \<Rightarrow> real \<Rightarrow> cell list \<Rightarrow> py_error + bool list" where
  "compare_series ord b [] = Inr []"
| "compare_series ord b (c # cs) =
     bind_err (compare_cell ord b c) (\<lambda>x.
     bind_err (compare_series ord b cs) (\<lambda>xs. Inr (x # xs)))"

definition range_filter :: "dataframe \<Rightarrow> string \<Rightarrow> real \<times> real \<Rightarrow> py_error + dataframe" where
  "range_filter df col rng =
     bind_err (getitem_col df col) (\<lambda>series.
     bind_err (compare_series (\<ge>) (fst rng) series) (\<lambda>ge.
     bind_err (getitem_col df col) (\<lambda>series'.
     bind_err (compare_series (\<le>) (snd rng) series') (\<lambda>le.
       Inr (getitem_mask df (map2 (\<and>) ge le))))))"

subsection \<open>\<^verbatim>\<open>apply_filters\<close>\<close>

text \<open>
  The filter dictionary: the three keys that \<^verbatim>\<open>apply_filters\<close> reads unconditionally are
  fields, the two range keys are optional. A status or verification choice is any value
  the select box offers, that is \<^verbatim>\<open>"All"\<close> or a cell of the column.
\<close>

record filters =
  search_term :: string
  status_filter :: cell
  verification_filter :: cell
  viewer_range :: "(real \<times> real) option"
  streaming_time_range :: "(real \<times> real) option"

definition apply_filters :: "regex_engine \<Rightarrow> dataframe \<Rightarrow> filters \<Rightarrow> py_error + dataframe" where
  "apply_filters re_compile df fs =
     (let filtered_df = copy df in
      bind_err (if search_term fs \<noteq> [] then text_search re_compile filtered_df (search_term fs)
                else Inr filtered_df) (\<lambda>filtered_df.
      bind_err (if status_filter fs \<noteq> Str ''All'' then eq_filter filtered_df ''is_live'' (status_filter fs)
                else Inr filtered_df) (\<lambda>filtered_df.
      bind_err (if verification_filter fs \<noteq> Str ''All''
                then eq_filter filtered_df ''isVerified'' (verification_filter fs)
                else Inr filtered_df) (\<lambda>filtered_df.
      bind_err (if viewer_range fs \<noteq> None \<and> ''current_viewers'' \<in> set (columns filtered_df)
                then range_filter filtered_df ''current_viewers'' (the (viewer_range fs))
                else Inr filtered_df) (\<lambda>filtered_df.
      bind_err (if streaming_time_range fs \<noteq> None \<and> ''total_streaming_minutes'' \<in> set (columns filtered_df)
                then range_filter filtered_df ''total_streaming_minutes'' (the (streaming_time_range fs))
                else Inr filtered_df) (\<lambda>filtered_df.
        Inr filtered_df))))))"

section \<open>\<^verbatim>\<open>apply_filters\<close> on references\<close>

text \<open>
  In Python \<^verbatim>\<open>df\<close> and \<^verbatim>\<open>filtered_df\<close> are names bound to objects. The store is the
  list of the frames allocated so far, a reference is a position in it.
  \<^verbatim>\<open>df.copy()\<close> and \<^verbatim>\<open>filtered_df[mask]\<close> allocate a new frame and the assignment
  rebinds the name to it; a predicate that is skipped leaves the name on its object.
  An exception leaves the store as it is when it is raised.
\<close>

type_synonym heap = "dataframe list"

definition then_ref ::
  "(py_error + nat) \<times> heap \<Rightarrow> (nat \<Rightarrow> heap \<Rightarrow> (py_error + nat) \<times> heap) \<Rightarrow> (py_error + nat) \<times> heap" where
  "then_ref st f = (case st of (Inl e, h) \<Rightarrow> (Inl e, h) | (Inr a, h) \<Rightarrow> f a h)"

definition new_frame :: "(dataframe \<Rightarrow> py_error + dataframe) \<Rightarrow> nat \<Rightarrow> heap \<Rightarrow> (py_error + nat) \<times> heap" where
  "new_frame body a h =
     (case body (h ! a) of
        Inl e \<Rightarrow> (Inl e, h)
      | Inr d \<Rightarrow> (Inr (length h), h @ [d]))"

definition apply_filters_ref :: "regex_engine \<Rightarrow> nat \<Rightarrow> filters \<Rightarrow> heap \<Rightarrow> (py_error + nat) \<times> heap" where
  "apply_filters_ref re_compile df fs h =
     then_ref (new_frame (\<lambda>d. Inr (copy d)) df h) (\<lambda>filtered_df h.
     then_ref (if search_term fs \<noteq> []
               then new_frame (\<lambda>d. text_search re_compile d (search_term fs)) filtered_df h
               else (Inr filtered_df, h)) (\<lambda>filtered_df h.
     then_ref (if status_filter fs \<noteq> Str ''All''
               then new_frame (\<lambda>d. eq_filter d ''is_live'' (status_filter fs)) filtered_df h
               else (Inr filtered_df, h)) (\<lambda>filtered_df h.
     then_ref (if verification_filter fs \<noteq> Str ''All''
               then new_frame (\<lambda>d. eq_filter d ''isVerified'' (verification_filter fs)) filtered_df h
               else (Inr filtered_df, h)) (\<lambda>filtered_df h.
     then_ref (if viewer_range fs \<noteq> None \<and> ''current_viewers'' \<in> set (columns (h ! filtered_df))
               then new_frame (\<lambda>d. range_filter d ''current_viewers'' (the (viewer_range fs))) filtered_df h
               else (Inr filtered_df, h)) (\<lambda>filtered_df h.
     then_ref (if streaming_time_range fs \<noteq> None \<and> ''total_streaming_minutes'' \<in> set (columns (h ! filtered_df))
               then new_frame (\<lambda>d. range_filter d ''total_streaming_minutes'' (the (streaming_time_range fs))) filtered_df h
               else (Inr filtered_df, h)) (\<lambda>filtered_df h.
       (Inr filtered_df, h)))))))"

section \<open>Pagination\<close>

text \<open>
  \<^verbatim>\<open>total_pages = (total_records - 1) // records_per_page + 1 if total_records > 0 else 1\<close>;
  Python's \<^verbatim>\<open>//\<close> on integers is the floor division that \<open>div\<close> is on \<open>int\<close>.
\<close>

definition total_pages :: "int \<Rightarrow> int \<Rightarrow> int" where
  "total_pages total_records records_per_page =
     (if total_records > 0 then (total_records - 1) div records_per_page + 1 else 1)"

text \<open>
  The page number comes from \<^verbatim>\<open>st.number_input\<close> with \<^verbatim>\<open>min_value=1\<close>,
  \<^verbatim>\<open>max_value=total_pages\<close> and \<^verbatim>\<open>value=1\<close>; the code itself does nothing to the number
  it gets. The widget hands back the number \<open>v\<close> that the operator asks for when it lies
  between the two bounds; a number outside them is not taken, and the widget hands back
  its default \<open>value\<close>.
\<close>

definition number_input :: "int \<Rightarrow> int \<Rightarrow> int \<Rightarrow> int \<Rightarrow> int" where
  "number_input min_value max_value value v =
     (if min_value \<le> v \<and> v \<le> max_value then v else value)"

text \<open>\<^verbatim>\<open>iloc[start:stop]\<close>: Python's slice, with negative positions counted from the end.\<close>

definition iloc :: "'a list \<Rightarrow> int \<Rightarrow> int \<Rightarrow> 'a list" where
  "iloc xs start stop =
     (let n = int (length xs);
          s = (if start < 0 then max (start + n) 0 else min start n);
          e = (if stop < 0 then max (stop + n) 0 else min stop n)
      in take (nat (e - s)) (drop (nat s) xs))"

text \<open>
  The rows displayed: the slice of the requested page when there is more than one page,
  else the whole frame.
\<close>

definition display_df :: "dataframe \<Rightarrow> int \<Rightarrow> int \<Rightarrow> dataframe" where
  "display_df filtered_df records_per_page entered =
     (let total_records = int (length (rows filtered_df));
          pages = total_pages total_records records_per_page
      in if pages > 1 then
           let page = number_input 1 pages 1 entered - 1;
               start_idx = page * records_per_page;
               end_idx = min (start_idx + records_per_page) total_records
           in filtered_df\<lparr>rows := iloc (rows filtered_df) start_idx end_idx\<rparr>
         else filtered_df)"

section \<open>The range sliders\<close>


definition series_min :: "int list \<Rightarrow> int" where
  "series_min vals = fold min vals (hd vals)"

definition series_max :: "int list \<Rightarrow> int" where
  "series_max vals = fold max vals (hd vals)"





section \<open>Display order and export\<close>

text \<open>
  The table that \<^verbatim>\<open>main\<close> displays gets two derived hour columns and a column order:
  assigning to a column that the frame lacks appends it, then come the priority columns
  that the frame has, then the others.
\<close>

definition add_column :: "string list \<Rightarrow> string \<Rightarrow> string list" where
  "add_column cols c = (if c \<in> set cols then cols else cols @ [c])"

definition formatted_columns :: "string list \<Rightarrow> string list" where
  "formatted_columns cols =
     (let cols1 = (if ''total_streaming_minutes'' \<in> set cols
                   then add_column cols ''total_streaming_hours'' else cols)
      in if ''daily_streaming_minutes'' \<in> set cols1
         then add_column cols1 ''daily_streaming_hours'' else cols1)"

definition priority_columns :: "string list" where
  "priority_columns = [''username'', ''is_live'', ''current_viewers'', ''game_name'', ''language'',
     ''isVerified'', ''total_streaming_hours'', ''daily_streaming_hours'',
     ''followers_count'', ''twitter_verified'']"

definition final_columns :: "string list \<Rightarrow> string list" where
  "final_columns cols =
     (let formatted = formatted_columns cols;
          displayed_columns = filter (\<lambda>col. col \<in> set formatted) priority_columns;
          remaining_columns = filter (\<lambda>col. col \<notin> set displayed_columns) formatted
      in displayed_columns @ remaining_columns)"

text \<open>
  \<^verbatim>\<open>to_csv(index=False)\<close> hands the column labels and then each row to Python's
  \<^verbatim>\<open>csv.writer\<close> with the default dialect: fields separated by commas, a field holding a
  comma, a double quote or a line break enclosed in double quotes with its quotes
  doubled, a record that would be empty (one empty field) written as two quotes, every
  record ended by the line terminator, \<^verbatim>\<open>\n\<close> on POSIX. A missing cell is written as
  \<^verbatim>\<open>na_rep\<close>, the empty text; a number in decimal.
\<close>

fun render_csv :: "cell \<Rightarrow> string" where
  "render_csv (Str s) = s"
| "render_csv (Num n) = str_int n"
| "render_csv NaN = []"
| "render_csv PyNone = []"

definition row_cells :: "dataframe \<Rightarrow> cell list \<Rightarrow> cell list" where
  "row_cells df r = map (\<lambda>i. cell_at i r) [0..<length (columns df)]"

definition special_char :: "char \<Rightarrow> bool" where
  "special_char c \<longleftrightarrow> c = CHR '','' \<or> c = CHR 0x22 \<or> c = CHR 0x0A \<or> c = CHR 0x0D"

definition double_quotes :: "string \<Rightarrow> string" where
  "double_quotes s = concat (map (\<lambda>c. if c = CHR 0x22 then [CHR 0x22, CHR 0x22] else [c]) s)"

definition csv_field :: "string \<Rightarrow> string" where
  "csv_field s = (if list_ex special_char s then CHR 0x22 # double_quotes s @ [CHR 0x22] else s)"

fun join_fields :: "string list \<Rightarrow> string" where
  "join_fields [] = []"
| "join_fields [f] = csv_field f"
| "join_fields (f # fs) = csv_field f @ CHR '','' # join_fields fs"

definition writerow :: "string list \<Rightarrow> string" where
  "writerow flds =
     (let rec = join_fields flds
      in (if flds \<noteq> [] \<and> rec = [] then [CHR 0x22, CHR 0x22] else rec) @ [CHR 0x0A])"

definition to_csv :: "dataframe \<Rightarrow> string" where
  "to_csv df = writerow (columns df) @ concat (map (\<lambda>r. writerow (map render_csv (row_cells df r))) (rows df))"

text \<open>
  \<^verbatim>\<open>df.empty\<close>: no rows or no columns. The export section is offered for a frame that is
  not empty, and the document is \<^verbatim>\<open>filtered_df.to_csv(index=False)\<close>.
\<close>

definition empty :: "dataframe \<Rightarrow> bool" where
  "empty df \<longleftrightarrow> rows df = [] \<or> columns df = []"

definition export_csv :: "dataframe \<Rightarrow> string option" where
  "export_csv filtered_df = (if \<not> empty filtered_df then Some (to_csv filtered_df) else None)"

section \<open>Notions used in the statements and proofs\<close>

subsection \<open>Case-insensitive substrings\<close>

definition lower_char :: "char \<Rightarrow> char" where
  "lower_char c =
     (case map_of (zip ''ABCDEFGHIJKLMNOPQRSTUVWXYZ'' ''abcdefghijklmnopqrstuvwxyz'') c of
        None \<Rightarrow> c | Some l \<Rightarrow> l)"

definition ci_contains :: "string \<Rightarrow> string \<Rightarrow> bool" where
  "ci_contains pat s = sublist (map lower_char pat) (map lower_char s)"

text \<open>
  On a term without metacharacters \<^verbatim>\<open>re.compile(term, re.IGNORECASE).search\<close> is the
  case-insensitive substring test. \<open>literal_engine\<close> reads every term that way; it
  stands in for Python's engine where a statement is evaluated on such a term.
\<close>

definition literal_engine :: regex_engine where
  "literal_engine pat = Inr (ci_contains pat)"

text \<open>
  The search as the specification words it: a record matches when one of the four
  columns that the frame has contains the term, and an absent value never does.
\<close>

definition spec_cell_matches :: "string \<Rightarrow> cell \<Rightarrow> bool" where
  "spec_cell_matches pat c =
     (case c of NaN \<Rightarrow> False | PyNone \<Rightarrow> False | _ \<Rightarrow> ci_contains pat (py_str c))"

definition spec_search :: "string \<Rightarrow> string list \<Rightarrow> cell list \<Rightarrow> bool" where
  "spec_search pat cols r =
     list_ex (\<lambda>col. case get_loc col cols of
                      None \<Rightarrow> False
                    | Some i \<Rightarrow> spec_cell_matches pat (cell_at i r)) search_columns"

fun missing :: "cell \<Rightarrow> bool" where
  "missing NaN = True"
| "missing PyNone = True"
| "missing _ = False"

subsection \<open>What each predicate keeps\<close>

text \<open>The row test that the text search computes, for a compiled pattern.\<close>

definition row_hit :: "(string \<Rightarrow> bool) \<Rightarrow> string list \<Rightarrow> string list \<Rightarrow> cell list \<Rightarrow> bool" where
  "row_hit search cols scols r =
     list_ex (\<lambda>col. case get_loc col cols of
                      None \<Rightarrow> False
                    | Some i \<Rightarrow> search (py_str (cell_at i r))) scols"

definition any_present :: "string list \<Rightarrow> string list \<Rightarrow> bool" where
  "any_present cols scols = list_ex (\<lambda>c. c \<in> set cols) scols"

fun is_str :: "cell \<Rightarrow> bool" where
  "is_str (Str s) = True"
| "is_str _ = False"

fun num_test :: "(real \<Rightarrow> bool) \<Rightarrow> cell \<Rightarrow> bool" where
  "num_test p (Num n) = p (of_int n)"
| "num_test p _ = False"

definition in_range :: "real \<times> real \<Rightarrow> cell \<Rightarrow> bool" where
  "in_range rng c = num_test (\<lambda>x. fst rng \<le> x \<and> x \<le> snd rng) c"

text \<open>
  A step of the filter is a function on frames that, when it returns, has kept the rows
  passing some test, and that returns unchanged any frame with the same columns whose
  rows all pass.
\<close>

definition filter_step :: "(dataframe \<Rightarrow> py_error + dataframe) \<Rightarrow> bool" where
  "filter_step s \<longleftrightarrow>
     (\<forall>df df'. s df = Inr df' \<longrightarrow>
        (\<exists>P. df' = df\<lparr>rows := filter P (rows df)\<rparr> \<and>
             (\<forall>d. columns d = columns df \<longrightarrow> (\<forall>r \<in> set (rows d). P r) \<longrightarrow> s d = Inr d)))"

definition filter_chain :: "regex_engine \<Rightarrow> filters \<Rightarrow> dataframe \<Rightarrow> py_error + dataframe" where
  "filter_chain re_compile fs =
     (\<lambda>d. bind_err (if search_term fs \<noteq> [] then text_search re_compile d (search_term fs) else Inr d)
     (\<lambda>d. bind_err (if status_filter fs \<noteq> Str ''All'' then eq_filter d ''is_live'' (status_filter fs) else Inr d)
     (\<lambda>d. bind_err (if verification_filter fs \<noteq> Str ''All''
                     then eq_filter d ''isVerified'' (verification_filter fs) else Inr d)
     (\<lambda>d. bind_err (if viewer_range fs \<noteq> None \<and> ''current_viewers'' \<in> set (columns d)
                     then range_filter d ''current_viewers'' (the (viewer_range fs)) else Inr d)
     (\<lambda>d. bind_err (if streaming_time_range fs \<noteq> None \<and> ''total_streaming_minutes'' \<in> set (columns d)
                     then range_filter d ''total_streaming_minutes'' (the (streaming_time_range fs)) else Inr d)
      Inr)))))"

definition ref_chain :: "regex_engine \<Rightarrow> filters \<Rightarrow> nat \<Rightarrow> heap \<Rightarrow> (py_error + nat) \<times> heap" where
  "ref_chain re_compile fs =
     (\<lambda>a h. then_ref (if search_term fs \<noteq> []
               then new_frame (\<lambda>d. text_search re_compile d (search_term fs)) a h
               else (Inr a, h))
     (\<lambda>a h. then_ref (if status_filter fs \<noteq> Str ''All''
               then new_frame (\<lambda>d. eq_filter d ''is_live'' (status_filter fs)) a h
               else (Inr a, h))
     (\<lambda>a h. then_ref (if verification_filter fs \<noteq> Str ''All''
               then new_frame (\<lambda>d. eq_filter d ''isVerified'' (verification_filter fs)) a h
               else (Inr a, h))
     (\<lambda>a h. then_ref (if viewer_range fs \<noteq> None \<and> ''current_viewers'' \<in> set (columns (h ! a))
               then new_frame (\<lambda>d. range_filter d ''current_viewers'' (the (viewer_range fs))) a h
               else (Inr a, h))
     (\<lambda>a h. then_ref (if streaming_time_range fs \<noteq> None \<and> ''total_streaming_minutes'' \<in> set (columns (h ! a))
               then new_frame (\<lambda>d. range_filter d ''total_streaming_minutes'' (the (streaming_time_range fs))) a h
               else (Inr a, h))
     (\<lambda>a h. (Inr a, h)))))))"

text \<open>
  A computation on references refines one on frames when it only allocates and its
  outcome is the frame computation's outcome on the frame the reference points to.
\<close>

definition refines ::
  "nat \<Rightarrow> (nat \<Rightarrow> heap \<Rightarrow> (py_error + nat) \<times> heap) \<Rightarrow> (dataframe \<Rightarrow> py_error + dataframe) \<Rightarrow> bool" where
  "refines lo c p \<longleftrightarrow>
     (\<forall>a h. a < length h \<longrightarrow> lo \<le> a \<longrightarrow>
        (case c a h of
           (Inl e, h') \<Rightarrow> prefix h h' \<and> p (h ! a) = Inl e
         | (Inr a', h') \<Rightarrow> prefix h h' \<and> a' < length h' \<and> lo \<le> a' \<and> p (h ! a) = Inr (h' ! a')))"

subsection \<open>The range predicates one by one\<close>

text \<open>
  A column is numeric when it holds no string: numbers and missing values only, as
  after the coercion in \<^verbatim>\<open>main\<close>.
\<close>

definition numeric_column :: "dataframe \<Rightarrow> string \<Rightarrow> bool" where
  "numeric_column df col \<longleftrightarrow>
     (case get_loc col (columns df) of
        None \<Rightarrow> True
      | Some i \<Rightarrow> list_all (\<lambda>r. \<not> is_str (cell_at i r)) (rows df))"


definition range_step :: "string \<Rightarrow> (real \<times> real) option \<Rightarrow> dataframe \<Rightarrow> py_error + dataframe" where
  "range_step col rng d =
     (if rng \<noteq> None \<and> col \<in> set (columns d) then range_filter d col (the rng) else Inr d)"

definition keep_in_range :: "nat \<Rightarrow> real \<times> real \<Rightarrow> dataframe \<Rightarrow> dataframe" where
  "keep_in_range i rng d = d\<lparr>rows := filter (\<lambda>r. in_range rng (cell_at i r)) (rows d)\<rparr>"

text \<open>A frame with the columns of another and rows from among its rows.\<close>

definition part_of :: "dataframe \<Rightarrow> dataframe \<Rightarrow> bool" where
  "part_of df d \<longleftrightarrow> columns d = columns df \<and> set (rows d) \<subseteq> set (rows df)"

subsection \<open>Clamping\<close>

text \<open>The clamp of the specification: a number outside the range goes to the nearer bound.\<close>

definition spec_clamp :: "int \<Rightarrow> int \<Rightarrow> int \<Rightarrow> int" where
  "spec_clamp lo hi v = max lo (min hi v)"

subsection \<open>Reading a CSV document\<close>

text \<open>
  The repository writes CSV and never reads it. \<open>parse_csv\<close> is the reader of the format
  that the export writes: it splits a document into records and fields, and knows of
  quoted fields and doubled quotes. It yields texts; it does not guess types.
\<close>

datatype mode = RecordStart | FieldStart | InField | InQuoted | QuoteInQuoted

fun csv_scan :: "mode \<Rightarrow> string \<Rightarrow> string list \<Rightarrow> string list list \<Rightarrow> string \<Rightarrow> string list list option" where
  "csv_scan m f r rs [] =
     (if m = RecordStart then Some (rev rs)
      else if m = InQuoted then None
      else Some (rev (rev (rev f # r) # rs)))"
| "csv_scan m f r rs (c # cs) =
     (if m = InQuoted then
        (if c = CHR 0x22 then csv_scan QuoteInQuoted f r rs cs else csv_scan InQuoted (c # f) r rs cs)
      else if c = CHR '','' then csv_scan FieldStart [] (rev f # r) rs cs
      else if c = CHR 0x0A then csv_scan RecordStart [] [] (rev (rev f # r) # rs) cs
      else if m = QuoteInQuoted then
        (if c = CHR 0x22 then csv_scan InQuoted (c # f) r rs cs else None)
      else if m = InField then csv_scan InField (c # f) r rs cs
      else if c = CHR 0x22 then csv_scan InQuoted [] r rs cs
      else csv_scan InField [c] r rs cs)"

definition parse_csv :: "string \<Rightarrow> string list list option" where
  "parse_csv text = csv_scan RecordStart [] [] [] text"

text \<open>What the reader goes on with at the delimiter that ends a field.\<close>

definition after_field :: "char \<Rightarrow> string \<Rightarrow> string list \<Rightarrow> string list list \<Rightarrow> string \<Rightarrow> string list list option" where
  "after_field d s r rs rest =
     (if d = CHR '','' then csv_scan FieldStart [] (s # r) rs rest
      else csv_scan RecordStart [] [] (rev (s # r) # rs) rest)"

text \<open>The records of the export: the column labels, then the rendered cells of each row.\<close>

definition csv_records :: "dataframe \<Rightarrow> string list list" where
  "csv_records df = columns df # map (\<lambda>r. map render_csv (row_cells df r)) (rows df)"

subsection \<open>Sample data\<close>

definition no_filters :: filters where
  "no_filters = \<lparr>search_term = [], status_filter = Str ''All'', verification_filter = Str ''All'',
     viewer_range = None, streaming_time_range = None\<rparr>"

definition demo :: dataframe where
  "demo = \<lparr>columns = [''username'', ''is_live'', ''current_viewers'', ''twitter''],
           rows = [[Str ''bob'', Str ''Yes'', Num 10, NaN],
                   [Str ''Nancy'', Str ''No'', Num 0, Str ''@nan''],
                   [Str ''carl'', Str ''Yes'', Num 50, Str ''@carl'']]\<rparr>"

definition demo_live :: dataframe where
  "demo_live = \<lparr>columns = [''username'', ''is_live'', ''current_viewers'', ''twitter''],
           rows = [[Str ''bob'', Str ''Yes'', Num 10, NaN],
                   [Str ''carl'', Str ''Yes'', Num 50, Str ''@carl'']]\<rparr>"

definition stats :: dataframe where
  "stats = \<lparr>columns = [''total_streaming_minutes'', ''username''], rows = [[Num 90, Str ''bob'']]\<rparr>"

definition no_twitter :: dataframe where
  "no_twitter = \<lparr>columns = [''username'', ''twitter''], rows = [[Str ''bob'', NaN]]\<rparr>"

definition blank_twitter :: dataframe where
  "blank_twitter = \<lparr>columns = [''username'', ''twitter''], rows = [[Str ''bob'', Str '''']]\<rparr>"


section \<open>Properties of the filter\<close>

subsection \<open>Auxiliary facts\<close>

lemma getitem_mask_map: "getitem_mask df (map P (rows df)) = df\<lparr>rows := filter P (rows df)\<rparr>"
proof -
  have "map fst (filter snd (zip xs (map P xs))) = filter P xs" for xs :: "cell list list"
    by (induction xs) auto
  then show ?thesis by (simp add: getitem_mask_def)
qed

lemma filter_stepI:
  assumes "\<And>df df'. s df = Inr df' \<Longrightarrow>
     \<exists>P. df' = df\<lparr>rows := filter P (rows df)\<rparr> \<and>
         (\<forall>d. columns d = columns df \<longrightarrow> (\<forall>r \<in> set (rows d). P r) \<longrightarrow> s d = Inr d)"
  shows "filter_step s"
  using assms unfolding filter_step_def by blast

lemma filter_step_id: "filter_step Inr"
  unfolding filter_step_def
proof (intro allI impI)
  fix df df' :: dataframe assume "Inr df = (Inr df' :: py_error + dataframe)"
  then have "df' = df\<lparr>rows := filter (\<lambda>_. True) (rows df)\<rparr>" by simp
  then show "\<exists>P. df' = df\<lparr>rows := filter P (rows df)\<rparr> \<and>
             (\<forall>d. columns d = columns df \<longrightarrow> (\<forall>r \<in> set (rows d). P r) \<longrightarrow> Inr d = (Inr d :: py_error + dataframe))"
    by blast
qed

lemma filter_step_comp:
  assumes s: "filter_step s" and t: "filter_step t"
  shows "filter_step (\<lambda>df. bind_err (s df) t)"
proof (rule filter_stepI)
  fix df df''
  assume run: "bind_err (s df) t = Inr df''"
  then obtain df' where 1: "s df = Inr df'" and 2: "t df' = Inr df''"
    by (auto simp: bind_err_def split: sum.splits)
  from s 1 obtain P where P: "df' = df\<lparr>rows := filter P (rows df)\<rparr>"
    and Pk: "\<And>d. columns d = columns df \<Longrightarrow> (\<forall>r \<in> set (rows d). P r) \<Longrightarrow> s d = Inr d"
    unfolding filter_step_def by blast
  from t 2 obtain Q where Q: "df'' = df'\<lparr>rows := filter Q (rows df')\<rparr>"
    and Qk: "\<And>d. columns d = columns df' \<Longrightarrow> (\<forall>r \<in> set (rows d). Q r) \<Longrightarrow> t d = Inr d"
    unfolding filter_step_def by blast
  have "df'' = df\<lparr>rows := filter (\<lambda>r. P r \<and> Q r) (rows df)\<rparr>"
    using P Q by simp
  moreover have "bind_err (s d) t = Inr d"
    if "columns d = columns df" "\<forall>r \<in> set (rows d). P r \<and> Q r" for d
  proof -
    have "s d = Inr d" using Pk that by blast
    moreover have "t d = Inr d" using Qk [of d] that P by simp
    ultimately show ?thesis by (simp add: bind_err_def)
  qed
  ultimately show "\<exists>P. df'' = df\<lparr>rows := filter P (rows df)\<rparr> \<and>
         (\<forall>d. columns d = columns df \<longrightarrow> (\<forall>r \<in> set (rows d). P r) \<longrightarrow> bind_err (s d) t = Inr d)"
    by blast
qed

lemma filter_step_if:
  assumes "filter_step s" "\<And>d d'. columns d = columns d' \<Longrightarrow> c d = c d'"
  shows "filter_step (\<lambda>df. if c df then s df else Inr df)"
proof (rule filter_stepI)
  fix df df'
  assume run: "(if c df then s df else Inr df) = Inr df'"
  show "\<exists>P. df' = df\<lparr>rows := filter P (rows df)\<rparr> \<and>
         (\<forall>d. columns d = columns df \<longrightarrow> (\<forall>r \<in> set (rows d). P r) \<longrightarrow> (if c d then s d else Inr d) = Inr d)"
  proof (cases "c df")
    case True
    with run have "s df = Inr df'" by simp
    with assms(1) obtain P where P: "df' = df\<lparr>rows := filter P (rows df)\<rparr>"
      and Pk: "\<And>d. columns d = columns df \<Longrightarrow> (\<forall>r \<in> set (rows d). P r) \<Longrightarrow> s d = Inr d"
      unfolding filter_step_def by blast
    have "(if c d then s d else Inr d) = Inr d" if "columns d = columns df" "\<forall>r \<in> set (rows d). P r" for d
      using Pk that by simp
    with P show ?thesis by blast
  next
    case False
    with run have "df' = df\<lparr>rows := filter (\<lambda>_. True) (rows df)\<rparr>" by simp
    moreover have "(if c d then s d else Inr d) = Inr d" if "columns d = columns df" for d
      using assms(2) [OF that] False by simp
    ultimately show ?thesis by blast
  qed
qed

lemma filter_all: "(\<forall>r \<in> set (rows d). P r) \<Longrightarrow> d\<lparr>rows := filter P (rows d)\<rparr> = d"
  by (simp add: filter_id_conv)

lemma getitem_col_cong:
  "columns d = columns df \<Longrightarrow> getitem_col df col = Inr s \<Longrightarrow>
   \<exists>i. get_loc col (columns df) = Some i \<and> s = map (cell_at i) (rows df) \<and> getitem_col d col = Inr (map (cell_at i) (rows d))"
  by (auto simp: getitem_col_def split: option.splits)

lemma filter_step_eq_filter: "filter_step (\<lambda>df. eq_filter df col v)"
proof (rule filter_stepI)
  fix df df'
  assume run: "eq_filter df col v = Inr df'"
  then obtain i where i: "get_loc col (columns df) = Some i"
    by (auto simp: eq_filter_def getitem_col_def bind_err_def split: option.splits)
  let ?P = "\<lambda>r. cell_eq (cell_at i r) v"
  have eq: "eq_filter d col v = Inr (d\<lparr>rows := filter ?P (rows d)\<rparr>)" if "columns d = columns df" for d
    using i that getitem_mask_map [of d ?P]
    by (simp add: eq_filter_def getitem_col_def bind_err_def comp_def)
  have "df' = df\<lparr>rows := filter ?P (rows df)\<rparr>"
    using run eq [of df] by simp
  moreover have "eq_filter d col v = Inr d" if "columns d = columns df" "\<forall>r \<in> set (rows d). ?P r" for d
    using eq [OF that(1)] filter_all [OF that(2)] by simp
  ultimately show "\<exists>P. df' = df\<lparr>rows := filter P (rows df)\<rparr> \<and>
         (\<forall>d. columns d = columns df \<longrightarrow> (\<forall>r \<in> set (rows d). P r) \<longrightarrow> eq_filter d col v = Inr d)"
    by blast
qed

lemma compare_series_Inr:
  "compare_series ord b cs = Inr bs \<Longrightarrow> bs = map (num_test (\<lambda>x. ord x b)) cs \<and> (\<forall>c \<in> set cs. \<not> is_str c)"
proof (induction cs arbitrary: bs)
  case Nil
  then show ?case by simp
next
  case (Cons c cs)
  then show ?case
    by (cases c) (auto simp: bind_err_def split: sum.splits)
qed

lemma compare_series_no_str:
  "\<forall>c \<in> set cs. \<not> is_str c \<Longrightarrow> compare_series ord b cs = Inr (map (num_test (\<lambda>x. ord x b)) cs)"
proof (induction cs)
  case Nil
  then show ?case by simp
next
  case (Cons c cs)
  then show ?case by (cases c) (auto simp: bind_err_def)
qed

lemma in_range_conj: "(num_test (\<lambda>x. x \<ge> lo) c \<and> num_test (\<lambda>x. x \<le> hi) c) = in_range (lo, hi) c"
  by (cases c) (auto simp: in_range_def)

lemma in_range_not_str: "in_range rng c \<Longrightarrow> \<not> is_str c"
  by (cases c) (auto simp: in_range_def)

lemma map2_and_map: "map2 (\<and>) (map f xs) (map g xs) = map (\<lambda>x. f x \<and> g x) xs"
  by (induction xs) auto

lemma range_filter_no_str:
  assumes "get_loc col (columns d) = Some i" "\<forall>r \<in> set (rows d). \<not> is_str (cell_at i r)"
  shows "range_filter d col rng = Inr (d\<lparr>rows := filter (\<lambda>r. in_range rng (cell_at i r)) (rows d)\<rparr>)"
proof -
  have ns: "\<forall>c \<in> set (map (cell_at i) (rows d)). \<not> is_str c"
    using assms(2) by simp
  have "map2 (\<and>) (map (num_test (\<lambda>x. x \<ge> fst rng)) (map (cell_at i) (rows d)))
                  (map (num_test (\<lambda>x. x \<le> snd rng)) (map (cell_at i) (rows d)))
        = map (\<lambda>r. in_range rng (cell_at i r)) (rows d)"
    by (simp add: map2_and_map in_range_conj comp_def)
  then show ?thesis
    using assms(1) compare_series_no_str [OF ns] getitem_mask_map [of d "\<lambda>r. in_range rng (cell_at i r)"]
    by (simp add: range_filter_def getitem_col_def bind_err_def)
qed

lemma range_filter_Inr:
  assumes "range_filter df col rng = Inr df'"
  shows "\<exists>i. get_loc col (columns df) = Some i \<and> (\<forall>r \<in> set (rows df). \<not> is_str (cell_at i r))"
proof -
  from assms obtain i where i: "get_loc col (columns df) = Some i"
    by (auto simp: range_filter_def getitem_col_def bind_err_def split: option.splits)
  with assms obtain ge where "compare_series (\<ge>) (fst rng) (map (cell_at i) (rows df)) = Inr ge"
    by (auto simp: range_filter_def getitem_col_def bind_err_def split: sum.splits)
  from compare_series_Inr [OF this] i show ?thesis by auto
qed

lemma filter_step_range_filter: "filter_step (\<lambda>df. range_filter df col rng)"
proof (rule filter_stepI)
  fix df df'
  assume run: "range_filter df col rng = Inr df'"
  from range_filter_Inr [OF run] obtain i where i: "get_loc col (columns df) = Some i"
    and ns: "\<forall>r \<in> set (rows df). \<not> is_str (cell_at i r)" by blast
  let ?P = "\<lambda>r. in_range rng (cell_at i r)"
  have "df' = df\<lparr>rows := filter ?P (rows df)\<rparr>"
    using run range_filter_no_str [OF i ns] by simp
  moreover have "range_filter d col rng = Inr d" if "columns d = columns df" "\<forall>r \<in> set (rows d). ?P r" for d
  proof -
    have "get_loc col (columns d) = Some i" using i that(1) by simp
    moreover have "\<forall>r \<in> set (rows d). \<not> is_str (cell_at i r)"
      using that(2) in_range_not_str by blast
    ultimately show ?thesis
      using range_filter_no_str [of col d i rng] filter_all [OF that(2)] by simp
  qed
  ultimately show "\<exists>P. df' = df\<lparr>rows := filter P (rows df)\<rparr> \<and>
         (\<forall>d. columns d = columns df \<longrightarrow> (\<forall>r \<in> set (rows d). P r) \<longrightarrow> range_filter d col rng = Inr d)"
    by blast
qed

lemma get_loc_None: "get_loc c xs = None \<longleftrightarrow> c \<notin> set xs"
  by (induction xs) auto

lemma row_hit_Nil: "row_hit search cols [] r = False"
  by (simp add: row_hit_def)

lemma row_hit_Cons:
  "row_hit search cols (c # cs) r =
     ((case get_loc c cols of None \<Rightarrow> False | Some i \<Rightarrow> search (py_str (cell_at i r))) \<or> row_hit search cols cs r)"
  by (simp add: row_hit_def)

lemma get_loc_Some: "get_loc c xs = Some i \<Longrightarrow> c \<in> set xs"
  using get_loc_None [of c xs] by auto

lemma row_hit_absent: "\<not> any_present cols scols \<Longrightarrow> \<not> row_hit search cols scols r"
  by (induction scols) (auto simp: any_present_def row_hit_def dest: get_loc_Some split: option.splits)

lemma str_contains_astype:
  "re_compile pat = Inr search \<Longrightarrow>
   str_contains re_compile (astype_str (map (cell_at i) rs)) pat False = Inr (map (\<lambda>r. search (py_str (cell_at i r))) rs)"
  by (simp add: str_contains_def astype_str_def bind_err_def comp_def)

lemma str_contains_error:
  "re_compile pat = Inl e \<Longrightarrow> str_contains re_compile col pat na = Inl e"
  by (simp add: str_contains_def bind_err_def)

lemma mask_or_map:
  "mask_or (map_option (\<lambda>P. map P rs) p) (map g rs) =
     map (\<lambda>r. (case p of None \<Rightarrow> False | Some q \<Rightarrow> q r) \<or> g r) rs"
  by (cases p) (simp_all add: mask_or_def map2_and_map zip_map_map zip_same_conv_map)

lemma search_loop_ok:
  assumes "re_compile pat = Inr search"
  shows "search_loop re_compile df pat scols (map_option (\<lambda>P. map P (rows df)) p) =
     Inr (if any_present (columns df) scols
          then Some (map (\<lambda>r. (case p of None \<Rightarrow> False | Some q \<Rightarrow> q r) \<or> row_hit search (columns df) scols r) (rows df))
          else map_option (\<lambda>P. map P (rows df)) p)"
proof (induction scols arbitrary: p)
  case Nil
  then show ?case by (simp add: any_present_def)
next
  case (Cons c cs)
  show ?case
  proof (cases "get_loc c (columns df)")
    case None
    then have "c \<notin> set (columns df)" by (simp add: get_loc_None)
    then show ?thesis
      using Cons [of p] None by (simp add: any_present_def row_hit_Cons)
  next
    case (Some i)
    then have inn: "c \<in> set (columns df)" using get_loc_None [of c "columns df"] by auto
    let ?p' = "Some (\<lambda>r. (case p of None \<Rightarrow> False | Some q \<Rightarrow> q r) \<or> search (py_str (cell_at i r)))"
    have step: "search_loop re_compile df pat (c # cs) (map_option (\<lambda>P. map P (rows df)) p)
        = search_loop re_compile df pat cs (map_option (\<lambda>P. map P (rows df)) ?p')"
      using inn Some str_contains_astype [where re_compile = re_compile and pat = pat, OF assms, of i "rows df"]
      by (simp add: getitem_col_def bind_err_def mask_or_map)
    show ?thesis
      unfolding step Cons [of ?p']
      using inn Some row_hit_absent [of "columns df" cs search]
      by (auto simp: any_present_def row_hit_Cons)
  qed
qed

lemma search_loop_error:
  assumes "re_compile pat = Inl e"
  shows "search_loop re_compile df pat scols msk =
     (if any_present (columns df) scols then Inl e else Inr msk)"
proof (induction scols arbitrary: msk)
  case Nil
  then show ?case by (simp add: any_present_def)
next
  case (Cons c cs)
  show ?case
  proof (cases "get_loc c (columns df)")
    case None
    then have "c \<notin> set (columns df)" by (simp add: get_loc_None)
    then show ?thesis using Cons by (simp add: any_present_def)
  next
    case (Some i)
    then have inn: "c \<in> set (columns df)" using get_loc_None [of c "columns df"] by auto
    then show ?thesis
      using Some str_contains_error [where re_compile = re_compile and pat = pat, OF assms]
      by (simp add: getitem_col_def bind_err_def any_present_def)
  qed
qed

lemma text_search_eq:
  "text_search re_compile df pat =
     (if any_present (columns df) search_columns then
        (case re_compile pat of
           Inl e \<Rightarrow> Inl e
         | Inr search \<Rightarrow> Inr (df\<lparr>rows := filter (row_hit search (columns df) search_columns) (rows df)\<rparr>))
      else Inl (KeyError ''False''))"
proof (cases "re_compile pat")
  case (Inl e)
  then show ?thesis
    using search_loop_error [where re_compile = re_compile and pat = pat, OF Inl, of df search_columns None]
    by (simp add: text_search_def bind_err_def)
next
  case (Inr search)
  then show ?thesis
    using search_loop_ok [where re_compile = re_compile and pat = pat, OF Inr, of df search_columns None]
      getitem_mask_map [of df "row_hit search (columns df) search_columns"]
    by (simp add: text_search_def bind_err_def)
qed

lemma filter_step_text_search: "filter_step (\<lambda>df. text_search re_compile df pat)"
proof (rule filter_stepI)
  fix df df'
  assume run: "text_search re_compile df pat = Inr df'"
  then have pres: "any_present (columns df) search_columns"
    by (auto simp: text_search_eq split: if_splits)
  with run obtain search where s: "re_compile pat = Inr search"
    by (auto simp: text_search_eq split: sum.splits)
  let ?P = "row_hit search (columns df) search_columns"
  have "df' = df\<lparr>rows := filter ?P (rows df)\<rparr>"
    using run pres s by (simp add: text_search_eq)
  moreover have "text_search re_compile d pat = Inr d"
    if "columns d = columns df" "\<forall>r \<in> set (rows d). ?P r" for d
    using pres s that(1) filter_all [OF that(2)] by (simp add: text_search_eq)
  ultimately show "\<exists>P. df' = df\<lparr>rows := filter P (rows df)\<rparr> \<and>
         (\<forall>d. columns d = columns df \<longrightarrow> (\<forall>r \<in> set (rows d). P r) \<longrightarrow> text_search re_compile d pat = Inr d)"
    by blast
qed

lemma copy_id: "copy df = df"
  by (simp add: copy_def)

lemma filter_step_apply_filters: "filter_step (\<lambda>df. apply_filters re_compile df fs)"
proof -
  define s1 where "s1 = (\<lambda>d. if search_term fs \<noteq> [] then text_search re_compile d (search_term fs) else Inr d)"
  define s2 where "s2 = (\<lambda>d. if status_filter fs \<noteq> Str ''All'' then eq_filter d ''is_live'' (status_filter fs) else Inr d)"
  define s3 where "s3 = (\<lambda>d. if verification_filter fs \<noteq> Str ''All''
      then eq_filter d ''isVerified'' (verification_filter fs) else Inr d)"
  define s4 where "s4 = (\<lambda>d. if viewer_range fs \<noteq> None \<and> ''current_viewers'' \<in> set (columns d)
      then range_filter d ''current_viewers'' (the (viewer_range fs)) else Inr d)"
  define s5 where "s5 = (\<lambda>d. if streaming_time_range fs \<noteq> None \<and> ''total_streaming_minutes'' \<in> set (columns d)
      then range_filter d ''total_streaming_minutes'' (the (streaming_time_range fs)) else Inr d)"
  have f1: "filter_step s1" unfolding s1_def
    by (rule filter_step_if [OF filter_step_text_search]) simp
  have f2: "filter_step s2" unfolding s2_def
    by (rule filter_step_if [OF filter_step_eq_filter]) simp
  have f3: "filter_step s3" unfolding s3_def
    by (rule filter_step_if [OF filter_step_eq_filter]) simp
  have f4: "filter_step s4" unfolding s4_def
    by (rule filter_step_if [OF filter_step_range_filter]) simp
  have f5: "filter_step s5" unfolding s5_def
    by (rule filter_step_if [OF filter_step_range_filter]) simp
  have t5: "filter_step (\<lambda>d. bind_err (s5 d) Inr)"
    by (rule filter_step_comp [OF f5 filter_step_id])
  have t4: "filter_step (\<lambda>d. bind_err (s4 d) (\<lambda>d. bind_err (s5 d) Inr))"
    by (rule filter_step_comp [OF f4 t5])
  have t3: "filter_step (\<lambda>d. bind_err (s3 d) (\<lambda>d. bind_err (s4 d) (\<lambda>d. bind_err (s5 d) Inr)))"
    by (rule filter_step_comp [OF f3 t4])
  have t2: "filter_step (\<lambda>d. bind_err (s2 d) (\<lambda>d. bind_err (s3 d) (\<lambda>d. bind_err (s4 d) (\<lambda>d. bind_err (s5 d) Inr))))"
    by (rule filter_step_comp [OF f2 t3])
  have t1: "filter_step (\<lambda>d. bind_err (s1 d) (\<lambda>d. bind_err (s2 d) (\<lambda>d. bind_err (s3 d) (\<lambda>d. bind_err (s4 d) (\<lambda>d. bind_err (s5 d) Inr)))))"
    by (rule filter_step_comp [OF f1 t2])
  have "(\<lambda>df. apply_filters re_compile df fs)
      = (\<lambda>d. bind_err (s1 d) (\<lambda>d. bind_err (s2 d) (\<lambda>d. bind_err (s3 d) (\<lambda>d. bind_err (s4 d) (\<lambda>d. bind_err (s5 d) Inr)))))"
    unfolding apply_filters_def s1_def s2_def s3_def s4_def s5_def Let_def copy_id ..
  with t1 show ?thesis by simp
qed

lemma refines_new_frame: "refines lo (new_frame body) body"
  unfolding refines_def new_frame_def
  by (auto split: sum.splits simp: nth_append)

lemma refines_skip: "refines lo (\<lambda>a h. (Inr a, h)) Inr"
  unfolding refines_def by simp

lemma refines_if:
  assumes "refines lo c p" "\<And>a h. a < length h \<Longrightarrow> b a h = b' (h ! a)"
  shows "refines lo (\<lambda>a h. if b a h then c a h else (Inr a, h)) (\<lambda>d. if b' d then p d else Inr d)"
  using assms unfolding refines_def by (auto split: sum.splits prod.splits)

lemma prefix_nth: "prefix h h' \<Longrightarrow> a < length h \<Longrightarrow> h' ! a = h ! a"
  by (auto simp: prefix_def nth_append)

lemma refines_then:
  assumes c: "refines lo c p" and k: "refines lo k q"
  shows "refines lo (\<lambda>a h. then_ref (c a h) k) (\<lambda>d. bind_err (p d) q)"
  unfolding refines_def
proof (intro allI impI)
  fix a and h :: heap assume a: "a < length h" "lo \<le> a"
  obtain r h1 where ch: "c a h = (r, h1)" by (cases "c a h")
  show "case then_ref (c a h) k of
          (Inl e, h') \<Rightarrow> prefix h h' \<and> bind_err (p (h ! a)) q = Inl e
        | (Inr a', h') \<Rightarrow> prefix h h' \<and> a' < length h' \<and> lo \<le> a' \<and> bind_err (p (h ! a)) q = Inr (h' ! a')"
  proof (cases r)
    case (Inl e)
    with c a ch show ?thesis
      unfolding refines_def by (fastforce simp: then_ref_def bind_err_def)
  next
    case (Inr a1)
    with c a ch have 1: "prefix h h1" "a1 < length h1" "lo \<le> a1" "p (h ! a) = Inr (h1 ! a1)"
      unfolding refines_def by fastforce+
    obtain r2 h2 where kh: "k a1 h1 = (r2, h2)" by (cases "k a1 h1")
    from k 1(2,3) kh have 2: "case r2 of Inl e \<Rightarrow> prefix h1 h2 \<and> q (h1 ! a1) = Inl e
        | Inr a' \<Rightarrow> prefix h1 h2 \<and> a' < length h2 \<and> lo \<le> a' \<and> q (h1 ! a1) = Inr (h2 ! a')"
      unfolding refines_def by (fastforce split: sum.splits)
    have "prefix h h2" using 1(1) 2 by (auto split: sum.splits)
    with 1 2 ch kh Inr show ?thesis
      by (auto simp: then_ref_def bind_err_def split: sum.splits)
  qed
qed

lemma apply_filters_chain: "apply_filters re_compile df fs = filter_chain re_compile fs df"
  unfolding apply_filters_def filter_chain_def Let_def copy_id ..

lemma apply_filters_ref_chain:
  "apply_filters_ref re_compile df fs h = then_ref (new_frame (\<lambda>d. Inr (copy d)) df h) (ref_chain re_compile fs)"
  unfolding apply_filters_ref_def ref_chain_def ..

lemma refines_chain: "refines lo (ref_chain re_compile fs) (filter_chain re_compile fs)"
  unfolding ref_chain_def filter_chain_def
  by (intro refines_then refines_if refines_new_frame refines_skip) simp_all

text \<open>
  Where no search column holds a missing value, and the engine reads the term literally,
  the search keeps the records that the specification names.
\<close>

lemma spec_cell_matches_present:
  "\<not> missing c \<Longrightarrow> spec_cell_matches pat c = ci_contains pat (py_str c)"
  by (cases c) (simp_all add: spec_cell_matches_def)

lemma search_as_specified_without_missing:
  assumes engine: "re_compile pat = Inr (ci_contains pat)"
      and nonempty: "pat \<noteq> []"
      and present: "any_present (columns df) search_columns"
      and full: "\<forall>r \<in> set (rows df). \<forall>col \<in> set search_columns. \<forall>i.
                   get_loc col (columns df) = Some i \<longrightarrow> \<not> missing (cell_at i r)"
  shows "apply_filters re_compile df (no_filters\<lparr>search_term := pat\<rparr>)
     = Inr (df\<lparr>rows := filter (spec_search pat (columns df)) (rows df)\<rparr>)"
proof -
  have same: "row_hit (ci_contains pat) (columns df) search_columns r = spec_search pat (columns df) r"
    if "r \<in> set (rows df)" for r
    unfolding row_hit_def spec_search_def list_ex_iff
    using full that by (auto simp: spec_cell_matches_present split: option.splits)
  have "filter (row_hit (ci_contains pat) (columns df) search_columns) (rows df)
      = filter (spec_search pat (columns df)) (rows df)"
    by (rule filter_cong) (simp_all add: same)
  then show ?thesis
    using engine nonempty present
    by (simp add: apply_filters_def no_filters_def copy_id bind_err_def text_search_eq)
qed
subsection \<open>The claims about \<^verbatim>\<open>apply_filters\<close>\<close>

text \<open>
  Claim C1. With a non-empty search term \<^verbatim>\<open>apply_filters\<close> is to keep exactly the records
  where one of the columns username, game_name, language, twitter that the frame has
  contains the term as a case-insensitive substring, and an absent value is never to
  match. The code converts the column with \<^verbatim>\<open>astype(str)\<close> before it searches, so an
  absent value is searched as the text \<^verbatim>\<open>nan\<close>, and \<^verbatim>\<open>na=False\<close> finds nothing left to
  exclude. For every engine that reads the term \<^verbatim>\<open>nan\<close> literally, as Python's does, the
  search for \<^verbatim>\<open>nan\<close> keeps the first record of the sample, whose only match is its
  missing twitter value, while the search as specified does not match that record.
\<close>

theorem search_matches_missing_value:
  assumes "re_compile ''nan'' = Inr (ci_contains ''nan'')"
  shows "apply_filters re_compile demo (no_filters\<lparr>search_term := ''nan''\<rparr>)
           = Inr (demo\<lparr>rows := [[Str ''bob'', Str ''Yes'', Num 10, NaN],
                                 [Str ''Nancy'', Str ''No'', Num 0, Str ''@nan'']]\<rparr>)
         \<and> \<not> spec_search ''nan'' (columns demo) [Str ''bob'', Str ''Yes'', Num 10, NaN]
         \<and> spec_search ''nan'' (columns demo) [Str ''Nancy'', Str ''No'', Num 0, Str ''@nan'']"
proof -
  have code: "apply_filters re_compile demo (no_filters\<lparr>search_term := ''nan''\<rparr>)
           = Inr (demo\<lparr>rows := [[Str ''bob'', Str ''Yes'', Num 10, NaN],
                                 [Str ''Nancy'', Str ''No'', Num 0, Str ''@nan'']]\<rparr>)"
    using assms
    by (simp add: apply_filters_def demo_def no_filters_def copy_def bind_err_def text_search_def
        search_columns_def getitem_col_def getitem_mask_def str_contains_def astype_str_def mask_or_def
        ci_contains_def lower_char_def cell_at_def sublist_Cons_right)
  have spec1: "\<not> spec_search ''nan'' (columns demo) [Str ''bob'', Str ''Yes'', Num 10, NaN]"
    by (simp add: spec_search_def spec_cell_matches_def search_columns_def demo_def cell_at_def
        ci_contains_def lower_char_def sublist_Cons_right)
  have spec2: "spec_search ''nan'' (columns demo) [Str ''Nancy'', Str ''No'', Num 0, Str ''@nan'']"
    by (simp add: spec_search_def spec_cell_matches_def search_columns_def demo_def cell_at_def
        ci_contains_def lower_char_def sublist_Cons_right)
  from code spec1 spec2 show ?thesis by blast
qed

theorem search_matches_missing_value_witness:
  "literal_engine ''nan'' = Inr (ci_contains ''nan'')
   \<and> apply_filters literal_engine demo (no_filters\<lparr>search_term := ''nan''\<rparr>)
       = Inr (demo\<lparr>rows := [[Str ''bob'', Str ''Yes'', Num 10, NaN],
                             [Str ''Nancy'', Str ''No'', Num 0, Str ''@nan'']]\<rparr>)
   \<and> \<not> spec_search ''nan'' (columns demo) [Str ''bob'', Str ''Yes'', Num 10, NaN]"
proof -
  have h: "literal_engine ''nan'' = Inr (ci_contains ''nan'')"
    by (simp add: literal_engine_def)
  from search_matches_missing_value [of literal_engine, OF h] h show ?thesis by blast
qed

text \<open>
  Claim C2. A predicate whose column the frame lacks is to be skipped without an
  exception. The range predicates and the single search columns are guarded by
  \<^verbatim>\<open>in filtered_df.columns\<close>; the status and verification predicates are not, and a search
  over a frame that has none of the four search columns indexes the frame with the scalar
  \<^verbatim>\<open>False\<close>. Each of the three raises \<^verbatim>\<open>KeyError\<close>.
\<close>

theorem absent_column_raises:
  "apply_filters re_compile \<lparr>columns = [''username''], rows = [[Str ''bob'']]\<rparr>
       (no_filters\<lparr>status_filter := Str ''Yes''\<rparr>) = Inl (KeyError ''is_live'')
   \<and> apply_filters re_compile \<lparr>columns = [''username''], rows = [[Str ''bob'']]\<rparr>
       (no_filters\<lparr>verification_filter := Str ''Yes''\<rparr>) = Inl (KeyError ''isVerified'')
   \<and> apply_filters re_compile \<lparr>columns = [''views''], rows = [[Num 3]]\<rparr>
       (no_filters\<lparr>search_term := ''bob''\<rparr>) = Inl (KeyError ''False'')"
  by (simp add: apply_filters_def no_filters_def copy_def bind_err_def eq_filter_def getitem_col_def
      text_search_def search_columns_def)

text \<open>
  Claim C3. Whenever \<^verbatim>\<open>apply_filters\<close> returns, the rows of its result are a subsequence of
  the rows of its input: each occurs in the input, none more often than there, and in the
  input's order. The columns are the input's.
\<close>

theorem apply_filters_subsequence:
  assumes "apply_filters re_compile df fs = Inr df'"
  shows "subseq (rows df') (rows df) \<and> columns df' = columns df"
proof -
  from filter_step_apply_filters [of re_compile fs] assms
  obtain P where "df' = df\<lparr>rows := filter P (rows df)\<rparr>"
    unfolding filter_step_def by blast
  then show ?thesis by simp
qed

theorem apply_filters_subsequence_witness:
  "apply_filters literal_engine demo (no_filters\<lparr>status_filter := Str ''Yes''\<rparr>) = Inr demo_live
   \<and> subseq (rows demo_live) (rows demo) \<and> columns demo_live = columns demo"
proof -
  have h: "apply_filters literal_engine demo (no_filters\<lparr>status_filter := Str ''Yes''\<rparr>) = Inr demo_live"
    by (simp add: apply_filters_def demo_def demo_live_def no_filters_def copy_def bind_err_def
        eq_filter_def getitem_col_def getitem_mask_def cell_at_def)
  from apply_filters_subsequence [OF h] h show ?thesis by blast
qed

text \<open>
  Claim C9. Filtering is idempotent: filtering the result of \<^verbatim>\<open>apply_filters\<close> again with
  the same filters gives that result again; and when the first call raises, so does the
  composition, with the same exception.
\<close>

theorem apply_filters_idempotent:
  "bind_err (apply_filters re_compile df fs) (\<lambda>df'. apply_filters re_compile df' fs)
     = apply_filters re_compile df fs"
proof (cases "apply_filters re_compile df fs")
  case (Inl e)
  then show ?thesis by (simp add: bind_err_def)
next
  case (Inr df')
  from filter_step_apply_filters [of re_compile fs] Inr
  obtain P where P: "df' = df\<lparr>rows := filter P (rows df)\<rparr>"
    and keep: "\<And>d. columns d = columns df \<Longrightarrow> (\<forall>r \<in> set (rows d). P r) \<Longrightarrow> apply_filters re_compile d fs = Inr d"
    unfolding filter_step_def by blast
  have "apply_filters re_compile df' fs = Inr df'"
    by (rule keep) (simp_all add: P)
  with Inr show ?thesis by (simp add: bind_err_def)
qed

theorem apply_filters_idempotent_witness:
  "apply_filters literal_engine demo (no_filters\<lparr>status_filter := Str ''Yes''\<rparr>) = Inr demo_live
   \<and> apply_filters literal_engine demo_live (no_filters\<lparr>status_filter := Str ''Yes''\<rparr>) = Inr demo_live"
proof -
  have h: "apply_filters literal_engine demo (no_filters\<lparr>status_filter := Str ''Yes''\<rparr>) = Inr demo_live"
    by (simp add: apply_filters_def demo_def demo_live_def no_filters_def copy_def bind_err_def
        eq_filter_def getitem_col_def getitem_mask_def cell_at_def)
  from apply_filters_idempotent [of literal_engine demo "no_filters\<lparr>status_filter := Str ''Yes''\<rparr>"] h
  show ?thesis by (simp add: bind_err_def)
qed

text \<open>
  Claim C10. \<^verbatim>\<open>apply_filters\<close> works on a copy and leaves its input as it was. On the
  store: after the call, whether it returned or raised, every frame that existed before
  is unchanged, the input among them; the frame returned is a new object, and it is the
  frame that \<open>apply_filters\<close> computes from the input.
\<close>

theorem apply_filters_input_unchanged:
  assumes "df < length h"
  shows "case apply_filters_ref re_compile df fs h of
           (r, h') \<Rightarrow> prefix h h' \<and> h' ! df = h ! df \<and>
             (case r of
                Inl e \<Rightarrow> apply_filters re_compile (h ! df) fs = Inl e
              | Inr a \<Rightarrow> length h \<le> a \<and> a < length h' \<and> apply_filters re_compile (h ! df) fs = Inr (h' ! a))"
proof -
  let ?h1 = "h @ [copy (h ! df)]"
  have start: "apply_filters_ref re_compile df fs h = ref_chain re_compile fs (length h) ?h1"
    by (simp add: apply_filters_ref_chain new_frame_def then_ref_def)
  have at: "?h1 ! length h = h ! df" by (simp add: copy_id)
  obtain r h' where run: "ref_chain re_compile fs (length h) ?h1 = (r, h')"
    by (cases "ref_chain re_compile fs (length h) ?h1")
  have "case ref_chain re_compile fs (length h) ?h1 of
           (Inl e, h') \<Rightarrow> prefix ?h1 h' \<and> filter_chain re_compile fs (?h1 ! length h) = Inl e
         | (Inr a', h') \<Rightarrow> prefix ?h1 h' \<and> a' < length h' \<and> length h \<le> a' \<and>
              filter_chain re_compile fs (?h1 ! length h) = Inr (h' ! a')"
    using refines_chain [of "length h" re_compile fs] unfolding refines_def by simp
  with run at have res: "prefix ?h1 h'"
    "case r of Inl e \<Rightarrow> apply_filters re_compile (h ! df) fs = Inl e
      | Inr a \<Rightarrow> length h \<le> a \<and> a < length h' \<and> apply_filters re_compile (h ! df) fs = Inr (h' ! a)"
    by (auto simp: apply_filters_chain split: sum.splits)
  have pre: "prefix h h'" using res(1) by (metis append_prefixD)
  show ?thesis
    using start run pre res(2) prefix_nth [OF pre assms] by simp
qed

theorem apply_filters_input_unchanged_witness:
  "(0::nat) < length [demo]
   \<and> apply_filters_ref literal_engine 0 (no_filters\<lparr>status_filter := Str ''Yes''\<rparr>) [demo]
       = (Inr 2, [demo, demo, demo_live])
   \<and> [demo, demo, demo_live] ! 0 = [demo] ! 0"
proof -
  have h: "(0::nat) < length [demo]" by simp
  have run: "apply_filters_ref literal_engine 0 (no_filters\<lparr>status_filter := Str ''Yes''\<rparr>) [demo]
       = (Inr 2, [demo, demo, demo_live])"
    by (simp add: apply_filters_ref_def demo_def demo_live_def no_filters_def then_ref_def new_frame_def
        copy_def eq_filter_def getitem_col_def getitem_mask_def bind_err_def cell_at_def)
  from apply_filters_input_unchanged [OF h, of literal_engine "no_filters\<lparr>status_filter := Str ''Yes''\<rparr>"] run h
  show ?thesis by simp
qed

section \<open>Properties of the pagination\<close>

lemma ceil_div:
  assumes "0 < N" "0 < P"
  shows "\<lceil>real_of_int N / real_of_int P\<rceil> = (N - 1) div P + 1"
proof (rule ceiling_unique)
  define q where "q = (N - 1) div P"
  define r where "r = (N - 1) mod P"
  have dm: "q * P + r = N - 1" unfolding q_def r_def by simp
  have r: "0 \<le> r" "r < P" unfolding r_def using assms(2) by simp_all
  have lo: "q * P < N" using dm r by linarith
  have "N = q * P + (r + 1)" using dm by simp
  also have "\<dots> \<le> q * P + P" using r by simp
  finally have hi: "N \<le> (q + 1) * P" by (simp add: algebra_simps)
  have Ppos: "0 < real_of_int P" using assms(2) by simp
  have "real_of_int q < real_of_int N / real_of_int P"
    using lo Ppos by (simp add: pos_less_divide_eq flip: of_int_mult)
  then show "of_int ((N - 1) div P + 1) - 1 < real_of_int N / real_of_int P"
    by (simp add: q_def)
  have "real_of_int N / real_of_int P \<le> real_of_int (q + 1)"
    using hi Ppos by (simp only: pos_divide_le_eq flip: of_int_mult)
  then show "real_of_int N / real_of_int P \<le> of_int ((N - 1) div P + 1)"
    by (simp add: q_def)
qed

lemma total_pages_ceiling:
  assumes "0 \<le> N" "0 < P"
  shows "total_pages N P = max 1 \<lceil>real_of_int N / real_of_int P\<rceil>"
proof (cases "N = 0")
  case True
  then show ?thesis by (simp add: total_pages_def)
next
  case False
  with assms have pos: "0 < N" by simp
  have "0 \<le> (N - 1) div P" using pos assms(2) by (simp add: pos_imp_zdiv_nonneg_iff)
  then show ?thesis
    using pos by (simp add: total_pages_def ceil_div [OF pos assms(2)])
qed

lemma take_pages: "concat (map (\<lambda>k. take P (drop (k * P) xs)) [0..<m]) = take (m * P) xs"
proof (induction m)
  case 0
  then show ?case by simp
next
  case (Suc m)
  have "take (m * P + P) xs = take (m * P) xs @ take P (drop (m * P) xs)"
    by (rule take_add)
  with Suc show ?case by (simp add: add.commute)
qed

lemma upto_as_nat: "[1..int m] = map (\<lambda>k. int k + 1) [0..<m]"
proof (induction m)
  case 0
  then show ?case by simp
next
  case (Suc m)
  have "[1..int (Suc m)] = [1..int m] @ [int m + 1]"
    using upto_rec2 [of 1 "int m + 1"] by (simp add: add.commute)
  with Suc show ?case by simp
qed

lemma total_pages_ge1: "0 < P \<Longrightarrow> 1 \<le> total_pages N P"
  by (simp add: total_pages_def pos_imp_zdiv_nonneg_iff)

lemma number_input_range:
  "lo \<le> d \<Longrightarrow> d \<le> hi \<Longrightarrow> lo \<le> number_input lo hi d v \<and> number_input lo hi d v \<le> hi"
  by (simp add: number_input_def)

lemma number_input_id: "lo \<le> v \<Longrightarrow> v \<le> hi \<Longrightarrow> number_input lo hi d v = v"
  by (simp add: number_input_def)

lemma page_start_lt:
  assumes "0 < P" "0 < N" "1 \<le> p" "p \<le> total_pages N P"
  shows "(p - 1) * P < N"
proof -
  have "p - 1 \<le> (N - 1) div P" using assms by (simp add: total_pages_def)
  then have "(p - 1) * P \<le> ((N - 1) div P) * P"
    using assms(1) by (simp add: mult_right_mono)
  also have "\<dots> \<le> N - 1"
    using assms(1) by (metis div_mult_mod_eq add_increasing2 pos_mod_sign order_refl)
  finally show ?thesis by simp
qed

lemma single_page_fits:
  assumes "0 < P" "\<not> 1 < total_pages N P"
  shows "N \<le> P"
proof (cases "0 < N")
  case True
  with assms have "(N - 1) div P \<le> 0" by (simp add: total_pages_def)
  moreover have "0 \<le> (N - 1) div P" using True assms(1) by (simp add: pos_imp_zdiv_nonneg_iff)
  ultimately have "(N - 1) div P = 0" by simp
  then have "N - 1 < P" using assms(1) True
    by (metis div_mult_mod_eq mult_zero_left add_0 pos_mod_bound)
  then show ?thesis by simp
next
  case False
  with assms(1) show ?thesis by simp
qed

lemma all_pages_cover:
  assumes "0 < P" "0 \<le> N"
  shows "N \<le> total_pages N P * P"
proof (cases "0 < N")
  case True
  have m: "(N - 1) mod P < P" using assms(1) by simp
  have "((N - 1) div P) * P + (N - 1) mod P = N - 1" by simp
  with m have "N - 1 < ((N - 1) div P) * P + P" by linarith
  then have "N - 1 < ((N - 1) div P + 1) * P" by (simp add: algebra_simps)
  with True show ?thesis by (simp add: total_pages_def)
next
  case False
  with assms show ?thesis by (simp add: total_pages_def)
qed

lemma display_df_page:
  assumes P: "0 < P" and p: "1 \<le> p" "p \<le> total_pages (int (length (rows df))) P"
  shows "rows (display_df df P p) = take (nat P) (drop (nat ((p - 1) * P)) (rows df))"
proof (cases "1 < total_pages (int (length (rows df))) P")
  case True
  let ?N = "int (length (rows df))"
  have Npos: "0 < ?N" using True by (auto simp: total_pages_def split: if_splits)
  have lt: "(p - 1) * P < ?N" by (rule page_start_lt [OF P Npos p])
  have ge: "0 \<le> (p - 1) * P" using P p(1) by simp
  have "rows (display_df df P p)
      = iloc (rows df) ((p - 1) * P) (min ((p - 1) * P + P) ?N)"
    using True p by (simp add: display_df_def Let_def number_input_id)
  also have "\<dots> = take (nat (min ((p - 1) * P + P) ?N - (p - 1) * P)) (drop (nat ((p - 1) * P)) (rows df))"
    using lt ge P by (simp add: iloc_def Let_def min_def)
  also have "\<dots> = take (nat P) (drop (nat ((p - 1) * P)) (rows df))"
  proof (cases "(p - 1) * P + P \<le> ?N")
    case True
    then show ?thesis by (simp add: min_def)
  next
    case False
    then have "length (drop (nat ((p - 1) * P)) (rows df)) \<le> nat (?N - (p - 1) * P)"
      using ge by simp
    moreover have "nat (?N - (p - 1) * P) \<le> nat P" using False by simp
    ultimately show ?thesis using False by (simp add: min_def)
  qed
  finally show ?thesis .
next
  case False
  then have "p = 1" using p by simp
  moreover have "length (rows df) \<le> nat P"
    using single_page_fits [OF P False] by simp
  ultimately show ?thesis using False by (simp add: display_df_def Let_def)
qed

lemma display_df_entered:
  assumes "0 < P"
  shows "display_df df P e = display_df df P (number_input 1 (total_pages (int (length (rows df))) P) 1 e)"
  using total_pages_ge1 [OF assms, of "int (length (rows df))"]
  by (simp add: display_df_def Let_def number_input_def)

lemma pages_concat:
  assumes P: "0 < P"
  shows "concat (map (\<lambda>p. rows (display_df df P p)) [1..total_pages (int (length (rows df))) P]) = rows df"
proof -
  let ?N = "int (length (rows df))"
  let ?tp = "total_pages ?N P"
  define m where "m = nat ?tp"
  have tp: "?tp = int m" using total_pages_ge1 [OF P, of ?N] by (simp add: m_def)
  have each: "rows (display_df df P (int k + 1)) = take (nat P) (drop (k * nat P) (rows df))" if "k < m" for k
  proof -
    have "rows (display_df df P (int k + 1)) = take (nat P) (drop (nat ((int k + 1 - 1) * P)) (rows df))"
      by (rule display_df_page [OF P]) (use that tp in simp_all)
    moreover have "nat (int k * P) = k * nat P" using P by (simp add: nat_mult_distrib)
    ultimately show ?thesis by simp
  qed
  have "concat (map (\<lambda>p. rows (display_df df P p)) [1..?tp])
      = concat (map (\<lambda>k. rows (display_df df P (int k + 1))) [0..<m])"
    by (simp add: tp upto_as_nat comp_def)
  also have "\<dots> = concat (map (\<lambda>k. take (nat P) (drop (k * nat P) (rows df))) [0..<m])"
    using each by (intro arg_cong [where f = concat] map_cong) simp_all
  also have "\<dots> = take (m * nat P) (rows df)" by (rule take_pages)
  also have "\<dots> = rows df"
  proof -
    have "?N \<le> int m * P" using all_pages_cover [OF P, of ?N] tp by simp
    then have "length (rows df) \<le> m * nat P"
      using P by (metis nat_int nat_mono nat_mult_distrib of_nat_0_le_iff)
    then show ?thesis by simp
  qed
  finally show ?thesis .
qed

lemma display_df_columns: "columns (display_df df P e) = columns df"
  by (simp add: display_df_def Let_def)

lemma display_df_slice:
  assumes P: "0 < P" and p: "1 \<le> p" "p \<le> total_pages (int (length (rows df))) P"
  shows "rows (display_df df P p)
     = take (nat (min (p * P) (int (length (rows df))) - (p - 1) * P)) (drop (nat ((p - 1) * P)) (rows df))"
proof -
  let ?N = "int (length (rows df))"
  let ?ys = "drop (nat ((p - 1) * P)) (rows df)"
  have ge: "0 \<le> (p - 1) * P" using P p(1) by simp
  have le: "(p - 1) * P \<le> ?N"
  proof (cases "0 < ?N")
    case True
    from page_start_lt [OF P True p] show ?thesis by simp
  next
    case False
    then have "p = 1" using p by (simp add: total_pages_def)
    then show ?thesis by simp
  qed
  have len: "int (length ?ys) = ?N - (p - 1) * P" using ge le by simp
  have "take (nat (min (p * P) ?N - (p - 1) * P)) ?ys = take (nat P) ?ys"
  proof (cases "p * P \<le> ?N")
    case True
    then show ?thesis by (simp add: min_def algebra_simps)
  next
    case False
    then have "?N - (p - 1) * P \<le> P" by (simp add: algebra_simps)
    with len have "length ?ys \<le> nat P" by linarith
    moreover have "nat (min (p * P) ?N - (p - 1) * P) = length ?ys"
      using False len by (simp add: min_def)
    ultimately show ?thesis by simp
  qed
  with display_df_page [OF P p] show ?thesis by simp
qed

text \<open>
  Claim C4 says that the requested page is clamped to the range from 1 to the number of
  pages. The code hands the two bounds to the widget and clamps nothing itself: a request
  for page 7 of the 2 pages of the sample shows the first page, where the clamped request,
  page 2, would show the last record.
\<close>

theorem request_out_of_range_not_clamped:
  "total_pages (int (length (rows demo))) 2 = 2
   \<and> spec_clamp 1 2 7 = 2
   \<and> rows (display_df demo 2 7)
       = [[Str ''bob'', Str ''Yes'', Num 10, NaN], [Str ''Nancy'', Str ''No'', Num 0, Str ''@nan'']]
   \<and> rows (display_df demo 2 (spec_clamp 1 2 7)) = [[Str ''carl'', Str ''Yes'', Num 50, Str ''@carl'']]"
  by (simp add: display_df_def demo_def total_pages_def number_input_def iloc_def Let_def spec_clamp_def)

text \<open>
  Claim C4, amended. For a page size \<open>P > 0\<close>: the number of pages of \<open>n\<close> records is the
  ceiling of \<open>n / P\<close>, and 1 when that is 0; so it is 1 for no records and 3 for 101
  records at 50 a page. The page shown, \<open>p\<close>, always lies in the range from 1 to the number
  of pages: it is the requested page when that lies in the range, and page 1 when it
  does not. The rows displayed are those at the positions from \<open>(p - 1) * P\<close> up to but
  excluding \<open>min (p * P) N\<close>; and the pages 1 to the last, one after the other, are the
  rows of the paginated frame, each once and in order.
\<close>

theorem pagination:
  assumes "0 < P"
  shows "total_pages (int n) P = max 1 \<lceil>real n / real_of_int P\<rceil>
       \<and> total_pages 0 P = 1
       \<and> total_pages 101 50 = 3
       \<and> (let N = int (length (rows df));
               p = number_input 1 (total_pages N P) 1 e
          in 1 \<le> p \<and> p \<le> total_pages N P
             \<and> p = (if 1 \<le> e \<and> e \<le> total_pages N P then e else 1)
             \<and> rows (display_df df P e) = take (nat (min (p * P) N - (p - 1) * P)) (drop (nat ((p - 1) * P)) (rows df))
             \<and> columns (display_df df P e) = columns df)
       \<and> concat (map (\<lambda>p. rows (display_df df P p)) [1..total_pages (int (length (rows df))) P]) = rows df"
proof -
  let ?N = "int (length (rows df))"
  let ?p = "number_input 1 (total_pages ?N P) 1 e"
  have a: "total_pages (int n) P = max 1 \<lceil>real n / real_of_int P\<rceil>"
    using total_pages_ceiling [of "int n" P] assms by simp
  have b: "total_pages 0 P = 1" "total_pages 101 50 = 3"
    by (simp_all add: total_pages_def)
  have c: "1 \<le> ?p \<and> ?p \<le> total_pages ?N P"
    by (rule number_input_range) (simp_all add: total_pages_ge1 [OF assms])
  have c': "?p = (if 1 \<le> e \<and> e \<le> total_pages ?N P then e else 1)"
    by (simp add: number_input_def)
  have "rows (display_df df P ?p)
      = take (nat (min (?p * P) ?N - (?p - 1) * P)) (drop (nat ((?p - 1) * P)) (rows df))"
    using c by (intro display_df_slice [OF assms]) simp_all
  then have d: "rows (display_df df P e)
      = take (nat (min (?p * P) ?N - (?p - 1) * P)) (drop (nat ((?p - 1) * P)) (rows df))"
    using display_df_entered [OF assms, of df e] by simp
  show ?thesis
    unfolding Let_def using a b c c' d display_df_columns [of df P e] pages_concat [OF assms, of df]
    by blast
qed

theorem pagination_witness:
  "(0::int) < 2
   \<and> total_pages 3 2 = 2
   \<and> rows (display_df demo 2 1) = [[Str ''bob'', Str ''Yes'', Num 10, NaN], [Str ''Nancy'', Str ''No'', Num 0, Str ''@nan'']]
   \<and> rows (display_df demo 2 2) = [[Str ''carl'', Str ''Yes'', Num 50, Str ''@carl'']]
   \<and> rows (display_df demo 2 7) = [[Str ''bob'', Str ''Yes'', Num 10, NaN], [Str ''Nancy'', Str ''No'', Num 0, Str ''@nan'']]
   \<and> concat (map (\<lambda>p. rows (display_df demo 2 p)) [1..total_pages (int (length (rows demo))) 2]) = rows demo"
proof -
  have h: "(0::int) < 2" by simp
  have tp: "total_pages 3 2 = 2" by (simp add: total_pages_def)
  have p1: "rows (display_df demo 2 1) = [[Str ''bob'', Str ''Yes'', Num 10, NaN], [Str ''Nancy'', Str ''No'', Num 0, Str ''@nan'']]"
    by (simp add: display_df_def demo_def total_pages_def number_input_def iloc_def Let_def)
  have p2: "rows (display_df demo 2 2) = [[Str ''carl'', Str ''Yes'', Num 50, Str ''@carl'']]"
    by (simp add: display_df_def demo_def total_pages_def number_input_def iloc_def Let_def)
  have p7: "rows (display_df demo 2 7) = [[Str ''bob'', Str ''Yes'', Num 10, NaN], [Str ''Nancy'', Str ''No'', Num 0, Str ''@nan'']]"
    by (simp add: display_df_def demo_def total_pages_def number_input_def iloc_def Let_def)
  from pagination [OF h, of _ demo] h tp p1 p2 p7 show ?thesis by blast
qed

section \<open>Properties of the range predicates\<close>

lemma fold_min_le: "fold min xs (a::int) \<le> a"
proof (induction xs arbitrary: a)
  case Nil
  then show ?case by simp
next
  case (Cons x xs)
  have "fold min xs (min x a) \<le> min x a" by (rule Cons)
  then show ?case by simp
qed

lemma fold_max_ge: "(a::int) \<le> fold max xs a"
proof (induction xs arbitrary: a)
  case Nil
  then show ?case by simp
next
  case (Cons x xs)
  have "max x a \<le> fold max xs (max x a)" by (rule Cons)
  then show ?case by simp
qed

lemma series_min_le_max: "series_min vals \<le> series_max vals"
  unfolding series_min_def series_max_def
  using fold_min_le [of vals "hd vals"] fold_max_ge [of "hd vals" vals] by linarith










lemma part_of_keep: "part_of df d \<Longrightarrow> part_of df (keep_in_range i rng d)"
  by (auto simp: part_of_def keep_in_range_def)

lemma range_step_numeric:
  assumes "numeric_column df col" "part_of df d" "get_loc col (columns df) = Some i"
  shows "range_step col (Some rng) d = Inr (keep_in_range i rng d)"
proof -
  have c: "get_loc col (columns d) = Some i" using assms(2,3) by (simp add: part_of_def)
  have "\<forall>r \<in> set (rows d). \<not> is_str (cell_at i r)"
    using assms by (auto simp: numeric_column_def part_of_def list_all_iff)
  from range_filter_no_str [OF c this, of rng] get_loc_Some [OF c]
  show ?thesis by (simp add: range_step_def keep_in_range_def)
qed

lemma range_step_total:
  assumes "numeric_column df col" "part_of df d"
  shows "\<exists>d'. range_step col rng d = Inr d' \<and> part_of df d'"
proof (cases "rng \<noteq> None \<and> col \<in> set (columns d)")
  case True
  then obtain i where i: "get_loc col (columns df) = Some i"
    using assms(2) get_loc_None [of col "columns df"] by (auto simp: part_of_def)
  from True obtain r where r: "rng = Some r" by auto
  show ?thesis
    using range_step_numeric [OF assms i, of r] part_of_keep [OF assms(2), of i r] r by simp
next
  case False
  then show ?thesis using assms(2) by (auto simp: range_step_def)
qed












section \<open>Properties of the export\<close>

lemma scan_plain:
  assumes "\<not> list_ex special_char s"
  shows "csv_scan InField f r rs (s @ rest) = csv_scan InField (rev s @ f) r rs rest"
  using assms
proof (induction s arbitrary: f)
  case Nil
  then show ?case by simp
next
  case (Cons c s)
  then show ?case by (simp add: special_char_def)
qed

lemma double_quotes_Cons:
  "double_quotes (c # s) = (if c = CHR 0x22 then [CHR 0x22, CHR 0x22] else [c]) @ double_quotes s"
  by (simp add: double_quotes_def)

lemma scan_quoted:
  "csv_scan InQuoted f r rs (double_quotes s @ CHR 0x22 # rest) = csv_scan QuoteInQuoted (rev s @ f) r rs rest"
proof (induction s arbitrary: f)
  case Nil
  then show ?case by (simp add: double_quotes_def)
next
  case (Cons c s)
  show ?case
    using Cons [of "c # f"] by (auto simp: double_quotes_Cons)
qed

lemma scan_field:
  assumes "d = CHR '','' \<or> d = CHR 0x0A" "m = RecordStart \<or> m = FieldStart"
  shows "csv_scan m [] r rs (csv_field s @ d # rest) = after_field d s r rs rest"
proof (cases "list_ex special_char s")
  case True
  then have "csv_scan m [] r rs (csv_field s @ d # rest)
      = csv_scan InQuoted [] r rs (double_quotes s @ CHR 0x22 # d # rest)"
    using assms(2) by (auto simp: csv_field_def)
  also have "\<dots> = csv_scan QuoteInQuoted (rev s) r rs (d # rest)"
    using scan_quoted [of "[]" r rs s "d # rest"] by simp
  also have "\<dots> = after_field d s r rs rest"
    using assms(1) by (auto simp: after_field_def)
  finally show ?thesis .
next
  case False
  show ?thesis
  proof (cases s)
    case Nil
    then show ?thesis using assms False by (auto simp: csv_field_def after_field_def)
  next
    case (Cons c s')
    with False have c: "\<not> special_char c" and s': "\<not> list_ex special_char s'" by simp_all
    have "csv_scan m [] r rs (csv_field s @ d # rest) = csv_scan InField [c] r rs (s' @ d # rest)"
      using assms(2) False Cons c by (auto simp: csv_field_def special_char_def)
    also have "\<dots> = csv_scan InField (rev s' @ [c]) r rs (d # rest)"
      by (rule scan_plain [OF s'])
    also have "\<dots> = after_field d s r rs rest"
      using assms(1) Cons by (auto simp: after_field_def)
    finally show ?thesis .
  qed
qed

lemma scan_join_fields:
  assumes "flds \<noteq> []" "m = RecordStart \<or> m = FieldStart"
  shows "csv_scan m [] r rs (join_fields flds @ CHR 0x0A # rest)
     = csv_scan RecordStart [] [] (rev (rev flds @ r) # rs) rest"
  using assms
proof (induction flds arbitrary: r m rule: join_fields.induct)
  case 1
  then show ?case by simp
next
  case (2 f)
  then show ?case
    using scan_field [of "CHR 0x0A" m r rs f rest] by (simp add: after_field_def)
next
  case (3 f g fs)
  have "csv_scan m [] r rs (join_fields (f # g # fs) @ CHR 0x0A # rest)
      = csv_scan m [] r rs (csv_field f @ CHR '','' # (join_fields (g # fs) @ CHR 0x0A # rest))"
    by simp
  also have "\<dots> = csv_scan FieldStart [] (f # r) rs (join_fields (g # fs) @ CHR 0x0A # rest)"
    using scan_field [of "CHR '',''" m r rs f] "3.prems"(2) by (simp add: after_field_def)
  also have "\<dots> = csv_scan RecordStart [] [] (rev (rev (g # fs) @ f # r) # rs) rest"
    by (rule "3.IH") simp_all
  finally show ?case by simp
qed

lemma csv_field_Nil: "csv_field s = [] \<longleftrightarrow> s = []"
  by (auto simp: csv_field_def)

lemma join_fields_Nil: "join_fields flds = [] \<longleftrightarrow> flds = [] \<or> flds = [[]]"
  by (induction flds rule: join_fields.induct) (auto simp: csv_field_Nil)

lemma scan_writerow:
  assumes "flds \<noteq> []"
  shows "csv_scan RecordStart [] [] rs (writerow flds @ rest) = csv_scan RecordStart [] [] (flds # rs) rest"
proof (cases "join_fields flds = []")
  case True
  with assms have "flds = [[]]" by (simp add: join_fields_Nil)
  then show ?thesis by (simp add: writerow_def csv_field_def)
next
  case False
  then show ?thesis
    using scan_join_fields [OF assms, of RecordStart "[]" rs rest]
    by (simp add: writerow_def)
qed

lemma scan_records:
  assumes "\<forall>flds \<in> set recs. flds \<noteq> []"
  shows "csv_scan RecordStart [] [] rs (concat (map writerow recs)) = Some (rev rs @ recs)"
  using assms
proof (induction recs arbitrary: rs)
  case Nil
  then show ?case by simp
next
  case (Cons flds recs)
  then have "csv_scan RecordStart [] [] rs (concat (map writerow (flds # recs)))
      = csv_scan RecordStart [] [] (flds # rs) (concat (map writerow recs))"
    using scan_writerow [of flds rs] by simp
  also have "\<dots> = Some (rev (flds # rs) @ recs)"
    using Cons by simp
  finally show ?case by simp
qed

lemma to_csv_records: "to_csv df = concat (map writerow (csv_records df))"
  by (simp add: to_csv_def csv_records_def comp_def)

lemma parse_to_csv:
  assumes "columns df \<noteq> []"
  shows "parse_csv (to_csv df) = Some (csv_records df)"
proof -
  have "\<forall>flds \<in> set (csv_records df). flds \<noteq> []"
    using assms by (auto simp: csv_records_def row_cells_def)
  from scan_records [OF this, of "[]"] show ?thesis
    by (simp add: parse_csv_def to_csv_records)
qed

lemma writerow_inj_aux:
  assumes "\<forall>flds \<in> set recs. flds \<noteq> []" "\<forall>flds \<in> set recs'. flds \<noteq> []"
      and "concat (map writerow recs) = concat (map writerow recs')"
  shows "recs = recs'"
proof -
  have a: "csv_scan RecordStart [] [] [] (concat (map writerow recs)) = Some recs"
    using scan_records [OF assms(1), of "[]"] by simp
  have b: "csv_scan RecordStart [] [] [] (concat (map writerow recs')) = Some recs'"
    using scan_records [OF assms(2), of "[]"] by simp
  have "Some recs = csv_scan RecordStart [] [] [] (concat (map writerow recs'))"
    unfolding assms(3) [symmetric] by (rule a [symmetric])
  also have "\<dots> = Some recs'" by (rule b)
  finally show ?thesis by simp
qed

lemma csv_records_nonempty: "columns df \<noteq> [] \<Longrightarrow> \<forall>flds \<in> set (csv_records df). flds \<noteq> []"
  by (auto simp: csv_records_def row_cells_def)

lemma to_csv_eq_iff:
  assumes "columns d \<noteq> []" "columns d' \<noteq> []"
  shows "to_csv d = to_csv d' \<longleftrightarrow> csv_records d = csv_records d'"
proof
  assume "to_csv d = to_csv d'"
  then show "csv_records d = csv_records d'"
    using writerow_inj_aux [OF csv_records_nonempty [OF assms(1)] csv_records_nonempty [OF assms(2)]]
    by (simp add: to_csv_records)
next
  assume "csv_records d = csv_records d'"
  then show "to_csv d = to_csv d'" by (simp add: to_csv_records)
qed

text \<open>
  Claim C7 says that the header of the export lists the columns in the priority order,
  the derived hour columns among them. The priority order is built for the displayed
  table only. For a frame with the columns total_streaming_minutes and username the
  table shows username, total_streaming_hours, total_streaming_minutes, and the export
  has the header total_streaming_minutes, username.
\<close>

theorem export_header_not_in_priority_order:
  "export_csv stats = Some ''total_streaming_minutes,username\<newline>90,bob\<newline>''
   \<and> parse_csv ''total_streaming_minutes,username\<newline>90,bob\<newline>''
       = Some [[''total_streaming_minutes'', ''username''], [''90'', ''bob'']]
   \<and> final_columns (columns stats) = [''username'', ''total_streaming_hours'', ''total_streaming_minutes'']
   \<and> final_columns (columns stats) \<noteq> [''total_streaming_minutes'', ''username'']"
proof -
  have 1: "export_csv stats = Some ''total_streaming_minutes,username\<newline>90,bob\<newline>''"
    by code_simp
  have 2: "parse_csv ''total_streaming_minutes,username\<newline>90,bob\<newline>''
       = Some [[''total_streaming_minutes'', ''username''], [''90'', ''bob'']]"
    by code_simp
  have 3: "final_columns (columns stats) = [''username'', ''total_streaming_hours'', ''total_streaming_minutes'']"
    by code_simp
  have 4: "final_columns (columns stats) \<noteq> [''total_streaming_minutes'', ''username'']"
    unfolding 3 by simp
  from 1 2 3 4 show ?thesis by blast
qed

text \<open>
  Claim C7, amended. The export serializes the whole filtered frame, whatever page is
  displayed: its header row lists the columns of the frame in the frame's own order,
  without derived columns, and one record follows for each row of the frame, with one
  field for each column.
\<close>

theorem export_header_and_records:
  assumes "\<not> empty filtered_df"
  shows "\<exists>header recs.
           export_csv filtered_df = Some (to_csv filtered_df)
         \<and> parse_csv (to_csv filtered_df) = Some (header # recs)
         \<and> header = columns filtered_df
         \<and> length recs = length (rows filtered_df)
         \<and> list_all (\<lambda>flds. length flds = length (columns filtered_df)) recs"
proof -
  have c: "columns filtered_df \<noteq> []" using assms by (simp add: empty_def)
  let ?recs = "map (\<lambda>r. map render_csv (row_cells filtered_df r)) (rows filtered_df)"
  have "parse_csv (to_csv filtered_df) = Some (columns filtered_df # ?recs)"
    using parse_to_csv [OF c] by (simp add: csv_records_def)
  moreover have "list_all (\<lambda>flds. length flds = length (columns filtered_df)) ?recs"
    by (simp add: list_all_iff row_cells_def)
  moreover have "export_csv filtered_df = Some (to_csv filtered_df)"
    using assms by (simp add: export_csv_def)
  ultimately show ?thesis by simp
qed

theorem export_header_and_records_witness:
  "\<not> empty stats
   \<and> export_csv stats = Some (to_csv stats)
   \<and> parse_csv (to_csv stats) = Some [[''total_streaming_minutes'', ''username''], [''90'', ''bob'']]
   \<and> columns stats = [''total_streaming_minutes'', ''username'']
   \<and> length (rows stats) = 1"
proof -
  have h: "\<not> empty stats" by (simp add: empty_def stats_def)
  have p: "parse_csv (to_csv stats) = Some [[''total_streaming_minutes'', ''username''], [''90'', ''bob'']]"
    by code_simp
  from export_header_and_records [OF h] h p show ?thesis by (simp add: stats_def)
qed

text \<open>
  Claim C8 says that parsing the export gives back the frame. The export writes a
  missing value and an empty string alike, so two different frames have the same
  document, and no reader gives back both.
\<close>

theorem export_confuses_absent_and_blank:
  "export_csv no_twitter = Some ''username,twitter\<newline>bob,\<newline>''
   \<and> export_csv blank_twitter = Some ''username,twitter\<newline>bob,\<newline>''
   \<and> no_twitter \<noteq> blank_twitter"
proof -
  have 1: "export_csv no_twitter = Some ''username,twitter\<newline>bob,\<newline>''"
    by code_simp
  have 2: "export_csv blank_twitter = Some ''username,twitter\<newline>bob,\<newline>''"
    by code_simp
  have 3: "no_twitter \<noteq> blank_twitter"
    by (simp add: no_twitter_def blank_twitter_def)
  from 1 2 3 show ?thesis by blast
qed

text \<open>
  Claim C8, amended. Reading the export of a frame that is not empty gives back the
  column labels and, row for row and column for column, the text of every cell as the
  export renders it: a string as it is, a number in decimal, a missing value as the
  empty text. Two such frames have the same export exactly when they agree in these.
\<close>

theorem export_round_trip_of_rendered_cells:
  assumes "\<not> empty d"
  shows "export_csv d = Some (to_csv d)
       \<and> parse_csv (to_csv d)
           = Some (columns d # map (\<lambda>r. map render_csv (row_cells d r)) (rows d))
       \<and> (\<not> empty d' \<longrightarrow> (export_csv d' = export_csv d \<longleftrightarrow> csv_records d' = csv_records d))"
proof -
  have c: "columns d \<noteq> []" using assms by (simp add: empty_def)
  have 1: "export_csv d = Some (to_csv d)" using assms by (simp add: export_csv_def)
  have 2: "parse_csv (to_csv d) = Some (columns d # map (\<lambda>r. map render_csv (row_cells d r)) (rows d))"
    using parse_to_csv [OF c] by (simp add: csv_records_def)
  have 3: "export_csv d' = export_csv d \<longleftrightarrow> csv_records d' = csv_records d" if "\<not> empty d'"
  proof -
    have c': "columns d' \<noteq> []" using that by (simp add: empty_def)
    show ?thesis
      using to_csv_eq_iff [OF c' c] that assms by (simp add: export_csv_def)
  qed
  from 1 2 3 show ?thesis by blast
qed

theorem export_round_trip_of_rendered_cells_witness:
  "\<not> empty demo
   \<and> parse_csv (to_csv demo)
       = Some [[''username'', ''is_live'', ''current_viewers'', ''twitter''],
               [''bob'', ''Yes'', ''10'', ''''],
               [''Nancy'', ''No'', ''0'', ''@nan''],
               [''carl'', ''Yes'', ''50'', ''@carl'']]
   \<and> \<not> empty no_twitter \<and> \<not> empty blank_twitter
   \<and> export_csv no_twitter = export_csv blank_twitter
   \<and> csv_records no_twitter = csv_records blank_twitter"
proof -
  have h: "\<not> empty demo" by (simp add: empty_def demo_def)
  have h1: "\<not> empty no_twitter" "\<not> empty blank_twitter"
    by (simp_all add: empty_def no_twitter_def blank_twitter_def)
  have r: "csv_records no_twitter = csv_records blank_twitter"
    by (simp add: csv_records_def row_cells_def cell_at_def no_twitter_def blank_twitter_def)
  have m: "map (\<lambda>r. map render_csv (row_cells demo r)) (rows demo)
     = [[''bob'', ''Yes'', ''10'', ''''], [''Nancy'', ''No'', ''0'', ''@nan''], [''carl'', ''Yes'', ''50'', ''@carl'']]"
    by code_simp
  from export_round_trip_of_rendered_cells [OF h, of demo]
    export_round_trip_of_rendered_cells [OF h1(2), of no_twitter] h h1 r m
  show ?thesis by (simp add: demo_def)
qed

end
